theory Spec2Isabelle
  imports Main "HOL-Library.Word"
begin

unbundle bit_operations_syntax

section \<open>The job of Jolt/Core/JobSystem.h\<close>

text \<open>
  \<^verbatim>\<open>JobSystem::Job\<close> keeps three atomics: \<^verbatim>\<open>mBarrier\<close> (an \<^verbatim>\<open>intptr_t\<close>),
  \<^verbatim>\<open>mReferenceCount\<close> and \<^verbatim>\<open>mNumDependencies\<close> (both \<^verbatim>\<open>uint32\<close>). The other members
  (\<^verbatim>\<open>mJobSystem\<close>, \<^verbatim>\<open>mJobFunction\<close>, name and colour) are never written after the
  constructor; what the job does to them is call them, and every such call is
  recorded as an \<open>event\<close>.

  \<^verbatim>\<open>intptr_t\<close> is taken at 64 bits. Only two of its values are ever compared:
  \<open>0\<close> and \<^verbatim>\<open>~intptr_t(0)\<close>.
\<close>

type_synonym uint32 = "32 word"
type_synonym intptr = "64 word"

definition cExecutingState :: uint32 where
  "cExecutingState = 0xe0e0e0e0"

definition cDoneState :: uint32 where
  "cDoneState = 0xd0d0d0d0"

definition cBarrierDoneState :: intptr where
  "cBarrierDoneState = NOT 0"

record Job =
  mBarrier :: intptr
  mReferenceCount :: uint32
  mNumDependencies :: uint32

text \<open>
  The constructor: \<^verbatim>\<open>mReferenceCount(0)\<close>, \<^verbatim>\<open>mNumDependencies(inNumDependencies)\<close>,
  and the member initialiser \<^verbatim>\<open>mBarrier = 0\<close>.
\<close>

definition Job_new :: "uint32 \<Rightarrow> Job" where
  "Job_new inNumDependencies =
     \<lparr>mBarrier = 0, mReferenceCount = 0, mNumDependencies = inNumDependencies\<rparr>"

text \<open>
  Calls that leave the job: the payload \<^verbatim>\<open>mJobFunction()\<close>, the barrier's
  \<^verbatim>\<open>OnJobFinished(this)\<close>, and the job system's \<^verbatim>\<open>QueueJob(this)\<close> and
  \<^verbatim>\<open>FreeJob(this)\<close>.
\<close>

datatype event =
    JobFunction
  | OnJobFinished intptr
  | QueueJob
  | FreeJob

text \<open>
  \<^verbatim>\<open>JPH_ASSERT\<close> is modelled with assertions enabled: a failed assertion ends the
  call with \<open>AssertionFailed\<close>. Dereferencing the null pointer of an empty handle
  ends it with \<open>NullDereference\<close>.
\<close>

datatype error = AssertionFailed | NullDereference

text \<open>
  \<^verbatim>\<open>std::atomic<T>::compare_exchange_strong(expected, desired)\<close> on a cell holding
  \<open>cur\<close>: the result is (success, new content of the cell, new value of
  \<open>expected\<close>). On failure \<open>expected\<close> receives the content of the cell.
\<close>

definition compare_exchange_strong :: "'a \<Rightarrow> 'a \<Rightarrow> 'a \<Rightarrow> bool \<times> 'a \<times> 'a" where
  "compare_exchange_strong cur expected desired =
     (if cur = expected then (True, desired, expected) else (False, cur, cur))"

subsection \<open>The operations, each call run without interruption\<close>

definition AddRef :: "Job \<Rightarrow> Job" where
  "AddRef j = j\<lparr>mReferenceCount := mReferenceCount j + 1\<rparr>"

definition Release :: "Job \<Rightarrow> Job \<times> event list" where
  "Release j =
     (let r = mReferenceCount j - 1
      in (j\<lparr>mReferenceCount := r\<rparr>, if r = 0 then [FreeJob] else []))"

definition SetBarrier :: "intptr \<Rightarrow> Job \<Rightarrow> error + (bool \<times> Job)" where
  "SetBarrier inBarrier j =
     (case compare_exchange_strong (mBarrier j) 0 inBarrier of
        (True, m, barrier) \<Rightarrow> Inr (True, j\<lparr>mBarrier := m\<rparr>)
      | (False, m, barrier) \<Rightarrow>
          if barrier = cBarrierDoneState then Inr (False, j\<lparr>mBarrier := m\<rparr>)
          else Inl AssertionFailed)"

text \<open>
  The loop of \<^verbatim>\<open>Execute\<close> that exchanges the barrier pointer for the done state:
  read \<^verbatim>\<open>mBarrier\<close>, try to swap exactly that value, and go round again when the
  swap fails. It returns the job and the pointer it captured.
\<close>

function fetch_barrier :: "Job \<Rightarrow> Job \<times> intptr" where
  "fetch_barrier j =
     (let barrier = mBarrier j
      in case compare_exchange_strong (mBarrier j) barrier cBarrierDoneState of
           (True, m, b) \<Rightarrow> (j\<lparr>mBarrier := m\<rparr>, b)
         | (False, m, b) \<Rightarrow> fetch_barrier (j\<lparr>mBarrier := m\<rparr>))"
  by pat_completeness auto
termination
  by (relation "{}") (auto simp: compare_exchange_strong_def)

declare fetch_barrier.simps [simp del]

definition Execute :: "Job \<Rightarrow> error + (uint32 \<times> Job \<times> event list)" where
  "Execute j =
     (case compare_exchange_strong (mNumDependencies j) 0 cExecutingState of
        (False, n, state) \<Rightarrow> Inr (state, j\<lparr>mNumDependencies := n\<rparr>, [])
      | (True, n, state) \<Rightarrow>
          (let j1 = j\<lparr>mNumDependencies := n\<rparr>;
               (j2, barrier) = fetch_barrier j1
           in if barrier = cBarrierDoneState then Inl AssertionFailed
              else
                (case compare_exchange_strong (mNumDependencies j2) cExecutingState cDoneState of
                   (ok, n', state') \<Rightarrow>
                     if state' \<noteq> cExecutingState then Inl AssertionFailed
                     else Inr (cDoneState, j2\<lparr>mNumDependencies := n'\<rparr>,
                               JobFunction #
                               (if barrier \<noteq> 0 then [OnJobFinished barrier] else [])))))"

definition CanBeExecuted :: "Job \<Rightarrow> bool" where
  "CanBeExecuted j = (mNumDependencies j = 0)"

definition IsDone :: "Job \<Rightarrow> bool" where
  "IsDone j = (mNumDependencies j = cDoneState)"


subsection \<open>The dependency counter operations of Core/JobSystem.inl\<close>

text \<open>
  Modelled from the spec: the bodies of \<^verbatim>\<open>Job::AddDependency\<close>,
  \<^verbatim>\<open>Job::RemoveDependency\<close> and \<^verbatim>\<open>Job::RemoveDependencyAndQueue\<close> are in
  Core/JobSystem.inl, which the header only includes. The header declares them
  with an \<^verbatim>\<open>int inCount\<close>; the spec says: AddDependency(n) "atomically adds n to
  the counter"; RemoveDependency(n) "atomically subtracts n. If the result is
  zero, the job must be handed to the scheduler's enqueue operation exactly
  once", implemented by "an atomic fetch-and-subtract followed by a check that
  the new value is zero". The header adds that \<^verbatim>\<open>RemoveDependency\<close> "returns true
  whenever the dependency counter reaches zero". Neither checks the state of the
  counter: that is left to the caller. The \<^verbatim>\<open>int\<close> is converted to \<^verbatim>\<open>uint32\<close>
  modulo \<open>2^32\<close>.
\<close>

definition AddDependency :: "int \<Rightarrow> Job \<Rightarrow> Job" where
  "AddDependency inCount j =
     j\<lparr>mNumDependencies := mNumDependencies j + word_of_int inCount\<rparr>"

definition RemoveDependency :: "int \<Rightarrow> Job \<Rightarrow> bool \<times> Job" where
  "RemoveDependency inCount j =
     (let new_value = mNumDependencies j - word_of_int inCount
      in (new_value = 0, j\<lparr>mNumDependencies := new_value\<rparr>))"

definition RemoveDependencyAndQueue :: "int \<Rightarrow> Job \<Rightarrow> Job \<times> event list" where
  "RemoveDependencyAndQueue inCount j =
     (case RemoveDependency inCount j of
        (True, j') \<Rightarrow> (j', [QueueJob])
      | (False, j') \<Rightarrow> (j', []))"

subsection \<open>JobHandle\<close>

text \<open>
  A \<^verbatim>\<open>JobHandle\<close> is a \<^verbatim>\<open>Ref<Job>\<close> (Core/Reference.h, which the header only
  includes): a pointer that is null for the empty handle. \<open>GetPtr\<close> reads it;
  \<open>deref\<close> is the \<^verbatim>\<open>->\<close> of the source, which has no defined result on the null
  pointer. The handle is modelled with the job it points to.
\<close>

datatype JobHandle = JobHandle (GetPtr: "Job option")

fun deref :: "Job option \<Rightarrow> error + Job" where
  "deref None = Inl NullDereference"
| "deref (Some j) = Inr j"

definition IsValid :: "JobHandle \<Rightarrow> bool" where
  "IsValid h = (GetPtr h \<noteq> None)"

text \<open>\<^verbatim>\<open>GetPtr() != nullptr && GetPtr()->IsDone()\<close>: the right operand is only
  evaluated when the left one holds.\<close>

definition JobHandle_IsDone :: "JobHandle \<Rightarrow> error + bool" where
  "JobHandle_IsDone h =
     (if GetPtr h \<noteq> None
      then (case deref (GetPtr h) of Inl e \<Rightarrow> Inl e | Inr j \<Rightarrow> Inr (IsDone j))
      else Inr False)"

definition JobHandle_AddDependency :: "JobHandle \<Rightarrow> int \<Rightarrow> error + JobHandle" where
  "JobHandle_AddDependency h inCount =
     (case deref (GetPtr h) of
        Inl e \<Rightarrow> Inl e
      | Inr j \<Rightarrow> Inr (JobHandle (Some (AddDependency inCount j))))"

definition JobHandle_RemoveDependency ::
    "JobHandle \<Rightarrow> int \<Rightarrow> error + (JobHandle \<times> event list)" where
  "JobHandle_RemoveDependency h inCount =
     (case deref (GetPtr h) of
        Inl e \<Rightarrow> Inl e
      | Inr j \<Rightarrow>
          (case RemoveDependencyAndQueue inCount j of
             (j', es) \<Rightarrow> Inr (JobHandle (Some j'), es)))"

section \<open>Threads: one atomic access at a time\<close>

text \<open>
  All three members are \<^verbatim>\<open>std::atomic\<close> and every access uses the default,
  sequentially consistent order, so a concurrent execution is an interleaving of
  the single accesses. A thread is either between calls (\<open>Idle\<close>) or inside
  one, at the point named by its \<open>pc\<close>, which also holds the locals of the call:

  \<^item> \<open>Run_Function\<close>: \<^verbatim>\<open>Execute\<close> claimed the job and is about to call
    \<^verbatim>\<open>mJobFunction()\<close>;
  \<^item> \<open>Read_Barrier\<close>: the payload returned; about to read \<^verbatim>\<open>barrier = mBarrier\<close>;
  \<^item> \<open>Swap_Barrier barrier\<close>: about to try
    \<^verbatim>\<open>mBarrier.compare_exchange_strong(barrier, cBarrierDoneState)\<close>;
  \<^item> \<open>Mark_Done barrier\<close>: about to try
    \<^verbatim>\<open>mNumDependencies.compare_exchange_strong(state, cDoneState)\<close>;
  \<^item> \<open>Notify barrier\<close>: about to test \<^verbatim>\<open>barrier != 0\<close> and call
    \<^verbatim>\<open>OnJobFinished\<close>;
  \<^item> \<open>Call_FreeJob\<close>: \<^verbatim>\<open>Release\<close> read zero and is about to call \<^verbatim>\<open>FreeJob\<close>;
  \<^item> \<open>Call_QueueJob\<close>: \<^verbatim>\<open>RemoveDependencyAndQueue\<close> read zero and is about to call
    \<^verbatim>\<open>QueueJob\<close>;
  \<^item> \<open>Stopped\<close>: an assertion failed.
\<close>

datatype pc =
    Idle
  | Run_Function
  | Read_Barrier
  | Swap_Barrier intptr
  | Mark_Done intptr
  | Notify intptr
  | Call_FreeJob
  | Call_QueueJob
  | Stopped

datatype call =
    Call_AddRef
  | Call_Release
  | Call_SetBarrier intptr
  | Call_Execute
  | Call_AddDependency int
  | Call_RemoveDependency int
  | Call_RemoveDependencyAndQueue int

text \<open>
  The callers' contract for the dependency counter. The header: once the counter
  has reached zero "it is no longer valid to call the AddDependency/
  RemoveDependency functions"; the spec: a dependency may only be added while "the
  job has not yet reached zero dependencies", and the counter goes down by
  \<open>k \<le> N\<close>. Counts stay below \<open>cDoneState\<close>, the smaller of the two reserved
  values.
\<close>

definition may_add :: "uint32 \<Rightarrow> int \<Rightarrow> bool" where
  "may_add n k = (0 < n \<and> 0 \<le> k \<and> uint n + k < uint cDoneState)"

definition may_remove :: "uint32 \<Rightarrow> int \<Rightarrow> bool" where
  "may_remove n k = (0 < n \<and> n < cDoneState \<and> 0 \<le> k \<and> k \<le> uint n)"

text \<open>
  The first atomic access of each call. \<open>None\<close>: the call is not made, because
  the contract above forbids it or because the argument of \<^verbatim>\<open>SetBarrier\<close> is
  \<^verbatim>\<open>~intptr_t(0)\<close>, which is the address of no \<^verbatim>\<open>Barrier\<close>.
\<close>

fun enter :: "call \<Rightarrow> Job \<Rightarrow> (Job \<times> pc) option" where
  "enter Call_AddRef j = Some (AddRef j, Idle)"
| "enter Call_Release j =
     (let r = mReferenceCount j - 1
      in Some (j\<lparr>mReferenceCount := r\<rparr>, if r = 0 then Call_FreeJob else Idle))"
| "enter (Call_SetBarrier inBarrier) j =
     (if inBarrier = cBarrierDoneState then None
      else
        (case compare_exchange_strong (mBarrier j) 0 inBarrier of
           (True, m, barrier) \<Rightarrow> Some (j\<lparr>mBarrier := m\<rparr>, Idle)
         | (False, m, barrier) \<Rightarrow>
             Some (j\<lparr>mBarrier := m\<rparr>,
                   if barrier = cBarrierDoneState then Idle else Stopped)))"
| "enter Call_Execute j =
     (case compare_exchange_strong (mNumDependencies j) 0 cExecutingState of
        (True, n, state) \<Rightarrow> Some (j\<lparr>mNumDependencies := n\<rparr>, Run_Function)
      | (False, n, state) \<Rightarrow> Some (j\<lparr>mNumDependencies := n\<rparr>, Idle))"
| "enter (Call_AddDependency k) j =
     (if may_add (mNumDependencies j) k then Some (AddDependency k j, Idle) else None)"
| "enter (Call_RemoveDependency k) j =
     (if may_remove (mNumDependencies j) k
      then Some (snd (RemoveDependency k j), Idle) else None)"
| "enter (Call_RemoveDependencyAndQueue k) j =
     (if may_remove (mNumDependencies j) k
      then (case RemoveDependency k j of
              (True, j') \<Rightarrow> Some (j', Call_QueueJob)
            | (False, j') \<Rightarrow> Some (j', Idle))
      else None)"

text \<open>The next access of a thread inside a call, with the calls it makes.\<close>

fun resume :: "pc \<Rightarrow> Job \<Rightarrow> (Job \<times> pc \<times> event list) option" where
  "resume Idle j = None"
| "resume Run_Function j = Some (j, Read_Barrier, [JobFunction])"
| "resume Read_Barrier j = Some (j, Swap_Barrier (mBarrier j), [])"
| "resume (Swap_Barrier barrier) j =
     (case compare_exchange_strong (mBarrier j) barrier cBarrierDoneState of
        (True, m, b) \<Rightarrow>
          Some (j\<lparr>mBarrier := m\<rparr>,
                if b = cBarrierDoneState then Stopped else Mark_Done b, [])
      | (False, m, b) \<Rightarrow> Some (j\<lparr>mBarrier := m\<rparr>, Read_Barrier, []))"
| "resume (Mark_Done barrier) j =
     (case compare_exchange_strong (mNumDependencies j) cExecutingState cDoneState of
        (ok, n, state) \<Rightarrow>
          Some (j\<lparr>mNumDependencies := n\<rparr>,
                if state = cExecutingState then Notify barrier else Stopped, []))"
| "resume (Notify barrier) j =
     Some (j, Idle, if barrier \<noteq> 0 then [OnJobFinished barrier] else [])"
| "resume Call_FreeJob j = Some (j, Idle, [FreeJob])"
| "resume Call_QueueJob j = Some (j, Idle, [QueueJob])"
| "resume Stopped j = None"

record system =
  job :: Job
  pcs :: "nat \<Rightarrow> pc"
  trace :: "event list"

text \<open>One step of the system: some thread makes its next access.\<close>

inductive step :: "system \<Rightarrow> system \<Rightarrow> bool" where
  call: "pcs s t = Idle \<Longrightarrow> enter c (job s) = Some (j', p') \<Longrightarrow>
         step s (s\<lparr>job := j', pcs := (pcs s)(t := p')\<rparr>)"
| resume: "resume (pcs s t) (job s) = Some (j', p', es) \<Longrightarrow>
         step s (s\<lparr>job := j', pcs := (pcs s)(t := p'), trace := trace s @ es\<rparr>)"

text \<open>
  The system starts with a job fresh from its constructor, created with a count
  below \<open>cDoneState\<close>, and no thread inside a call.
\<close>

definition start :: "uint32 \<Rightarrow> system" where
  "start n = \<lparr>job = Job_new n, pcs = (\<lambda>t. Idle), trace = []\<rparr>"

inductive reachable :: "system \<Rightarrow> bool" where
  start: "n < cDoneState \<Longrightarrow> reachable (start n)"
| step: "reachable s \<Longrightarrow> step s s' \<Longrightarrow> reachable s'"

text \<open>
  A schedule names, move by move, the thread that goes next and, when that thread
  is idle, the call it makes. \<open>run\<close> plays a schedule.
\<close>

fun fire :: "nat \<times> call \<Rightarrow> system \<Rightarrow> system option" where
  "fire (t, c) s =
     (if pcs s t = Idle
      then (case enter c (job s) of
              None \<Rightarrow> None
            | Some (j', p') \<Rightarrow> Some (s\<lparr>job := j', pcs := (pcs s)(t := p')\<rparr>))
      else (case resume (pcs s t) (job s) of
              None \<Rightarrow> None
            | Some (j', p', es) \<Rightarrow>
                Some (s\<lparr>job := j', pcs := (pcs s)(t := p'), trace := trace s @ es\<rparr>)))"

fun run :: "(nat \<times> call) list \<Rightarrow> system \<Rightarrow> system option" where
  "run [] s = Some s"
| "run (m # ms) s = (case fire m s of None \<Rightarrow> None | Some s' \<Rightarrow> run ms s')"


subsection \<open>What holds in every reachable state\<close>

text \<open>
  \<open>claimed p\<close>: the thread is inside \<^verbatim>\<open>Execute\<close>, between its successful claim and
  the exchange that marks the job done. \<open>ok_pc p n b fin\<close> is what a thread at
  \<open>p\<close> may rely on, for the counter \<open>n\<close>, the barrier slot \<open>b\<close> and whether the
  payload has been called (\<open>fin\<close>). \<open>ok_job\<close> relates the counter, the slot and
  the calls made so far.
\<close>

fun claimed :: "pc \<Rightarrow> bool" where
  "claimed Run_Function = True"
| "claimed Read_Barrier = True"
| "claimed (Swap_Barrier b) = True"
| "claimed (Mark_Done b) = True"
| "claimed p = False"

fun ok_pc :: "pc \<Rightarrow> uint32 \<Rightarrow> intptr \<Rightarrow> bool \<Rightarrow> bool" where
  "ok_pc Run_Function n b fin = (n = cExecutingState \<and> \<not> fin \<and> b \<noteq> cBarrierDoneState)"
| "ok_pc Read_Barrier n b fin = (n = cExecutingState \<and> fin \<and> b \<noteq> cBarrierDoneState)"
| "ok_pc (Swap_Barrier x) n b fin = (n = cExecutingState \<and> fin \<and> b \<noteq> cBarrierDoneState)"
| "ok_pc (Mark_Done x) n b fin =
     (n = cExecutingState \<and> fin \<and> b = cBarrierDoneState \<and> x \<noteq> cBarrierDoneState)"
| "ok_pc (Notify x) n b fin = (n = cDoneState \<and> x \<noteq> cBarrierDoneState)"
| "ok_pc p n b fin = True"

definition ok_job :: "uint32 \<Rightarrow> intptr \<Rightarrow> event list \<Rightarrow> bool" where
  "ok_job n b tr \<longleftrightarrow>
     (JobFunction \<in> set tr \<longrightarrow> n = cExecutingState \<or> n = cDoneState) \<and>
     count_list tr JobFunction \<le> 1 \<and>
     (n = cDoneState \<longrightarrow> b = cBarrierDoneState) \<and>
     (b = cBarrierDoneState \<longrightarrow> JobFunction \<in> set tr) \<and>
     (\<forall>x. OnJobFinished x \<in> set tr \<longrightarrow> n = cDoneState \<and> x \<noteq> 0 \<and> x \<noteq> cBarrierDoneState)"

definition inv :: "system \<Rightarrow> bool" where
  "inv s \<longleftrightarrow>
     (\<forall>t. ok_pc (pcs s t) (mNumDependencies (job s)) (mBarrier (job s))
             (JobFunction \<in> set (trace s))) \<and>
     (\<forall>t u. claimed (pcs s t) \<longrightarrow> claimed (pcs s u) \<longrightarrow> t = u) \<and>
     ok_job (mNumDependencies (job s)) (mBarrier (job s)) (trace s)"


subsection \<open>Sequences of reference count calls\<close>

text \<open>
  \<^verbatim>\<open>AddRef\<close> and \<^verbatim>\<open>Release\<close> each make one atomic access and decide on the value
  it returned, so concurrent calls act like the calls in some order. \<open>ref_calls\<close>
  makes them in the order of the list and returns, call by call, the events.
\<close>

datatype ref_op = Do_AddRef | Do_Release

fun ref_call :: "ref_op \<Rightarrow> Job \<Rightarrow> Job \<times> event list" where
  "ref_call Do_AddRef j = (AddRef j, [])"
| "ref_call Do_Release j = Release j"

fun ref_calls :: "ref_op list \<Rightarrow> Job \<Rightarrow> Job \<times> event list list" where
  "ref_calls [] j = (j, [])"
| "ref_calls (c # cs) j =
     (case ref_call c j of
        (j', es) \<Rightarrow> (case ref_calls cs j' of (j'', ess) \<Rightarrow> (j'', es # ess)))"

text \<open>
  The count never reaches zero early: \<^verbatim>\<open>Release\<close> is only called on a count that
  is not zero, and after every call but the last the count is not zero.
\<close>

fun never_zero_early :: "ref_op list \<Rightarrow> Job \<Rightarrow> bool" where
  "never_zero_early [] j = True"
| "never_zero_early (c # cs) j =
     ((c = Do_Release \<longrightarrow> mReferenceCount j \<noteq> 0) \<and>
      (cs \<noteq> [] \<longrightarrow>
         mReferenceCount (fst (ref_call c j)) \<noteq> 0 \<and> never_zero_early cs (fst (ref_call c j))))"

subsection \<open>The transitions of the counter, as the spec lists them\<close>

text \<open>
  "The counter only ever transitions \<open>N \<rightarrow> N-k\<close> (\<open>k \<le> N\<close>, \<open>N > 0\<close>),
  \<open>0 \<rightarrow> EXECUTING\<close>, \<open>EXECUTING \<rightarrow> DONE\<close>", where \<open>N\<close> is a count and not one of the
  two reserved values.
\<close>

definition listed_transition :: "uint32 \<Rightarrow> uint32 \<Rightarrow> bool" where
  "listed_transition n n' \<longleftrightarrow>
     (0 < n \<and> n \<noteq> cExecutingState \<and> n \<noteq> cDoneState \<and> n' \<le> n) \<or>
     (n = 0 \<and> n' = cExecutingState) \<or>
     (n = cExecutingState \<and> n' = cDoneState)"

subsection \<open>The transitions of the counter under the callers' contract\<close>

text \<open>
  What one atomic access may do to the counter when \<^verbatim>\<open>AddDependency\<close> and
  \<^verbatim>\<open>RemoveDependency\<close> are only called as \<open>may_add\<close> and \<open>may_remove\<close> allow:
  nothing, a count going down, a count going up to a count, the claim
  \<open>0 \<rightarrow> cExecutingState\<close>, or \<open>cExecutingState \<rightarrow> cDoneState\<close>.
\<close>

definition contract_transition :: "uint32 \<Rightarrow> uint32 \<Rightarrow> bool" where
  "contract_transition n n' \<longleftrightarrow>
     n' = n \<or>
     (0 < n \<and> n < cDoneState \<and> n' < n) \<or>
     (0 < n \<and> n < n' \<and> n' < cDoneState) \<or>
     (n = 0 \<and> n' = cExecutingState) \<or>
     (n = cExecutingState \<and> n' = cDoneState)"

subsection \<open>Two schedules\<close>

text \<open>
  Thread 0 attaches barrier 7 and executes the job; thread 1 calls \<^verbatim>\<open>Execute\<close> while
  thread 0 is inside it and again after it has finished. \<open>midway_schedule\<close> stops
  when thread 0 has frozen the barrier slot and not yet marked the job done.
\<close>

definition solo_schedule :: "(nat \<times> call) list" where
  "solo_schedule =
     [(0, Call_SetBarrier 7), (0, Call_Execute), (1, Call_Execute), (0, Call_Execute),
      (0, Call_Execute), (0, Call_Execute), (0, Call_Execute), (0, Call_Execute),
      (1, Call_Execute)]"

definition midway_schedule :: "(nat \<times> call) list" where
  "midway_schedule = take 6 solo_schedule"

definition finished_job :: Job where
  "finished_job =
     \<lparr>mBarrier = cBarrierDoneState, mReferenceCount = 0, mNumDependencies = cDoneState\<rparr>"

subsection \<open>Queueing\<close>

text \<open>
  \<open>started n\<close>: the counter has reached zero, now or earlier. \<open>queue_inv\<close> is
  what holds of \<^verbatim>\<open>QueueJob\<close> in every reachable state: only one thread can be
  about to call it, only after the counter reached zero, and then it has not
  been called before.
\<close>

definition started :: "uint32 \<Rightarrow> bool" where
  "started n \<longleftrightarrow> n = 0 \<or> n = cExecutingState \<or> n = cDoneState"

definition queue_inv :: "system \<Rightarrow> bool" where
  "queue_inv s \<longleftrightarrow>
     (\<forall>t. pcs s t = Call_QueueJob \<longrightarrow>
        started (mNumDependencies (job s)) \<and> QueueJob \<notin> set (trace s)) \<and>
     (\<forall>t u. pcs s t = Call_QueueJob \<longrightarrow> pcs s u = Call_QueueJob \<longrightarrow> t = u) \<and>
     (QueueJob \<in> set (trace s) \<longrightarrow> started (mNumDependencies (job s))) \<and>
     count_list (trace s) QueueJob \<le> 1"

text \<open>
  Two predecessors of a job created with two dependencies each remove one.
\<close>

definition queue_schedule :: "(nat \<times> call) list" where
  "queue_schedule =
     [(0, Call_RemoveDependencyAndQueue 1), (1, Call_RemoveDependencyAndQueue 1),
      (1, Call_RemoveDependencyAndQueue 1)]"

subsection \<open>Reading a count through the state tests\<close>

text \<open>
  \<open>reads_as_count n\<close>: on a job that was created with \<open>n\<close> dependencies and has
  not run, the three state tests say what is the case. \<^verbatim>\<open>IsDone\<close> is false;
  \<^verbatim>\<open>CanBeExecuted\<close> holds exactly when \<open>n\<close> is zero; \<^verbatim>\<open>Execute\<close> runs the payload
  and reports done when \<open>n\<close> is zero, and otherwise leaves the job alone and
  reports a value that is neither of the two reserved ones.
\<close>

definition reads_as_count :: "uint32 \<Rightarrow> bool" where
  "reads_as_count n \<longleftrightarrow>
     \<not> IsDone (Job_new n) \<and>
     (CanBeExecuted (Job_new n) \<longleftrightarrow> n = 0) \<and>
     (case Execute (Job_new n) of
        Inl e \<Rightarrow> False
      | Inr (v, j', es) \<Rightarrow>
          if n = 0 then v = cDoneState \<and> es = [JobFunction]
          else v \<noteq> cExecutingState \<and> v \<noteq> cDoneState \<and> j' = Job_new n \<and> es = [])"

section \<open>Properties\<close>

subsection \<open>Constants and the callers' contract\<close>

lemma uint_cDoneState: "uint cDoneState = 3503345872"
  by (simp add: cDoneState_def)

lemma uint_cExecutingState: "uint cExecutingState = 3772834016"
  by (simp add: cExecutingState_def)

lemma may_add_uint:
  assumes "may_add n k"
  shows "uint (n + word_of_int k) = uint n + k"
proof -
  have "0 \<le> uint n + k" "uint n + k < 2 ^ 32"
    using assms by (simp_all add: may_add_def uint_cDoneState)
  then show ?thesis
    by (simp add: uint_word_ariths uint_word_of_int take_bit_eq_mod mod_add_right_eq)
qed

lemma may_remove_uint:
  assumes "may_remove n k"
  shows "uint (n - word_of_int k) = uint n - k"
proof -
  have "uint n < 2 ^ 32" using uint_bounded [of n] by simp
  then have "0 \<le> uint n - k" "uint n - k < 2 ^ 32"
    using assms by (simp_all add: may_remove_def)
  then show ?thesis
    by (simp add: uint_word_ariths uint_word_of_int take_bit_eq_mod mod_diff_right_eq)
qed


lemma may_add_below: "may_add n k \<Longrightarrow> n + word_of_int k < cDoneState"
  by (simp add: word_less_def may_add_uint) (simp add: may_add_def)

lemma may_remove_below: "may_remove n k \<Longrightarrow> n - word_of_int k < cDoneState"
  by (simp add: word_less_def may_remove_uint) (simp add: may_remove_def word_less_def)

lemma may_add_count: "may_add n k \<Longrightarrow> n < cDoneState"
  by (simp add: may_add_def word_less_def)

lemma below_not_sentinel: "n < cDoneState \<Longrightarrow> n \<noteq> cDoneState \<and> n \<noteq> cExecutingState"
  by (auto simp: word_less_def uint_cDoneState uint_cExecutingState)


lemma sentinels_distinct: "cExecutingState \<noteq> cDoneState" "cExecutingState \<noteq> 0" "cDoneState \<noteq> 0"
  "cDoneState \<noteq> cExecutingState" "0 \<noteq> cExecutingState" "0 \<noteq> cDoneState"
  by (simp_all add: cExecutingState_def cDoneState_def)

lemma barrier_done_nonzero: "cBarrierDoneState \<noteq> 0" "0 \<noteq> cBarrierDoneState"
  by (simp_all add: cBarrierDoneState_def)

lemma inv_start: "n < cDoneState \<Longrightarrow> inv (start n)"
  by (auto simp: inv_def ok_job_def start_def Job_new_def barrier_done_nonzero
      dest: below_not_sentinel)

lemma ok_pc_unclaimed:
  "ok_pc p n b fin \<Longrightarrow> \<not> claimed p \<Longrightarrow> (n = cDoneState \<longrightarrow> n' = cDoneState) \<Longrightarrow> ok_pc p n' b' fin'"
  by (cases p) auto

lemma ok_pc_claimed: "ok_pc p n b fin \<Longrightarrow> claimed p \<Longrightarrow> n = cExecutingState"
  by (cases p) auto

lemma ok_pc_waiting:
  "ok_pc p n b fin \<Longrightarrow> n \<noteq> cExecutingState \<Longrightarrow> n \<noteq> cDoneState \<Longrightarrow> ok_pc p n' b' fin'"
  by (cases p) auto

lemma ok_pc_waiting_unclaimed:
  "ok_pc p n b fin \<Longrightarrow> n \<noteq> cExecutingState \<Longrightarrow> \<not> claimed p"
  by (cases p) auto

lemma ok_pc_set_barrier:
  "ok_pc p n 0 fin \<Longrightarrow> x \<noteq> cBarrierDoneState \<Longrightarrow> ok_pc p n x fin"
  by (cases p) (auto simp: barrier_done_nonzero)

text \<open>How a step changes what the invariant reads.\<close>

lemma invI:
  assumes "inv s"
    and "pcs s' = (pcs s)(t := p')"
    and "ok_pc p' (mNumDependencies (job s')) (mBarrier (job s')) (JobFunction \<in> set (trace s'))"
    and "\<And>u. u \<noteq> t \<Longrightarrow>
           ok_pc (pcs s u) (mNumDependencies (job s')) (mBarrier (job s')) (JobFunction \<in> set (trace s'))"
    and "claimed p' \<Longrightarrow> claimed (pcs s t) \<or> (\<forall>u. \<not> claimed (pcs s u))"
    and "ok_job (mNumDependencies (job s')) (mBarrier (job s')) (trace s')"
  shows "inv s'"
  using assms unfolding inv_def by (simp (no_asm_simp)) (metis (full_types))

lemma inv_same:
  assumes "inv s"
    and "pcs s' = (pcs s)(t := p')"
    and "mNumDependencies (job s') = mNumDependencies (job s)"
    and "mBarrier (job s') = mBarrier (job s)"
    and "JobFunction \<in> set (trace s') \<longleftrightarrow> JobFunction \<in> set (trace s)"
    and "ok_pc p' (mNumDependencies (job s)) (mBarrier (job s)) (JobFunction \<in> set (trace s))"
    and "claimed p' \<Longrightarrow> claimed (pcs s t)"
    and "ok_job (mNumDependencies (job s)) (mBarrier (job s)) (trace s')"
  shows "inv s'"
proof (rule invI [OF assms(1,2)])
  show "ok_pc p' (mNumDependencies (job s')) (mBarrier (job s')) (JobFunction \<in> set (trace s'))"
    using assms by simp
  show "ok_pc (pcs s u) (mNumDependencies (job s')) (mBarrier (job s')) (JobFunction \<in> set (trace s'))" for u
    using assms(1,3,4,5) by (simp add: inv_def)
  show "claimed p' \<Longrightarrow> claimed (pcs s t) \<or> (\<forall>u. \<not> claimed (pcs s u))"
    using assms(7) by simp
  show "ok_job (mNumDependencies (job s')) (mBarrier (job s')) (trace s')"
    using assms by simp
qed

lemma inv_pc: "inv s \<Longrightarrow> ok_pc (pcs s t) (mNumDependencies (job s)) (mBarrier (job s)) (JobFunction \<in> set (trace s))"
  by (simp add: inv_def)

lemma inv_job: "inv s \<Longrightarrow> ok_job (mNumDependencies (job s)) (mBarrier (job s)) (trace s)"
  by (simp add: inv_def)

lemma inv_unique: "inv s \<Longrightarrow> claimed (pcs s t) \<Longrightarrow> u \<noteq> t \<Longrightarrow> \<not> claimed (pcs s u)"
  unfolding inv_def by blast

lemma inv_waiting:
  assumes "inv s" "mNumDependencies (job s) \<noteq> cExecutingState"
  shows "\<not> claimed (pcs s u)"
  using ok_pc_waiting_unclaimed [OF inv_pc [OF assms(1)] assms(2)] .

lemma inv_step:
  assumes "inv s"
    and "ok_pc p' (mNumDependencies j') (mBarrier j') (JobFunction \<in> set tr')"
    and "\<And>u. u \<noteq> t \<Longrightarrow>
           ok_pc (pcs s u) (mNumDependencies j') (mBarrier j') (JobFunction \<in> set tr')"
    and "claimed p' \<Longrightarrow> claimed (pcs s t) \<or> (\<forall>u. \<not> claimed (pcs s u))"
    and "ok_job (mNumDependencies j') (mBarrier j') tr'"
  shows "inv (s\<lparr>job := j', pcs := (pcs s)(t := p'), trace := tr'\<rparr>)"
  by (rule invI [OF assms(1), where t = t and p' = p']) (use assms(2-) in simp_all)

lemma inv_quiet:
  assumes "inv s"
    and "mNumDependencies j' = mNumDependencies (job s)" "mBarrier j' = mBarrier (job s)"
    and "JobFunction \<in> set tr' \<longleftrightarrow> JobFunction \<in> set (trace s)"
    and "ok_pc p' (mNumDependencies (job s)) (mBarrier (job s)) (JobFunction \<in> set (trace s))"
    and "claimed p' \<Longrightarrow> claimed (pcs s t)"
    and "ok_job (mNumDependencies (job s)) (mBarrier (job s)) tr'"
  shows "inv (s\<lparr>job := j', pcs := (pcs s)(t := p'), trace := tr'\<rparr>)"
  by (rule inv_step [OF assms(1)]) (use assms(2-) inv_pc [OF assms(1)] in simp_all)

lemma ok_job_waiting:
  assumes "ok_job n b tr" "n \<noteq> cExecutingState" "n \<noteq> cDoneState" "n' \<noteq> cDoneState"
  shows "ok_job n' b tr"
  using assms unfolding ok_job_def by blast

lemma ok_job_waiting_fresh:
  assumes "ok_job n b tr" "n \<noteq> cExecutingState" "n \<noteq> cDoneState"
  shows "JobFunction \<notin> set tr" "b \<noteq> cBarrierDoneState"
  using assms unfolding ok_job_def by blast+

lemma ok_job_other:
  assumes "ok_job n b tr" "e = FreeJob \<or> e = QueueJob"
  shows "ok_job n b (tr @ [e])"
  using assms unfolding ok_job_def by auto

text \<open>Calls.\<close>

lemma inv_waiting_step:
  assumes "inv s"
    and old: "mNumDependencies (job s) \<noteq> cExecutingState" "mNumDependencies (job s) \<noteq> cDoneState"
    and new: "mNumDependencies j' \<noteq> cDoneState"
    and b: "mBarrier j' = mBarrier (job s)"
    and p': "ok_pc p' (mNumDependencies j') (mBarrier (job s)) False"
  shows "inv (s\<lparr>job := j', pcs := (pcs s)(t := p'), trace := trace s\<rparr>)"
proof (rule inv_step [OF assms(1)])
  note fresh = ok_job_waiting_fresh [OF inv_job [OF assms(1)] old]
  show "ok_pc p' (mNumDependencies j') (mBarrier j') (JobFunction \<in> set (trace s))"
    using p' fresh by (simp add: b)
  show "ok_pc (pcs s u) (mNumDependencies j') (mBarrier j') (JobFunction \<in> set (trace s))" for u
    by (rule ok_pc_waiting [OF inv_pc [OF assms(1)] old])
  show "claimed p' \<Longrightarrow> claimed (pcs s t) \<or> (\<forall>u. \<not> claimed (pcs s u))"
    using inv_waiting [OF assms(1) old(1)] by simp
  show "ok_job (mNumDependencies j') (mBarrier j') (trace s)"
    using ok_job_waiting [OF inv_job [OF assms(1)] old new] by (simp add: b)
qed

lemma inv_call:
  assumes "inv s" "pcs s t = Idle" "enter c (job s) = Some (j', p')"
  shows "inv (s\<lparr>job := j', pcs := (pcs s)(t := p'), trace := trace s\<rparr>)"
proof (cases c)
  case Call_AddRef
  with assms(3) have "j' = AddRef (job s)" "p' = Idle" by simp_all
  then show ?thesis
    by (intro inv_quiet [OF assms(1)]) (simp_all add: AddRef_def inv_job [OF assms(1)])
next
  case Call_Release
  with assms(3) have "mNumDependencies j' = mNumDependencies (job s)" "mBarrier j' = mBarrier (job s)"
    "p' = Idle \<or> p' = Call_FreeJob"
    by (auto simp: Let_def)
  then show ?thesis
    by (intro inv_quiet [OF assms(1)]) (auto simp: inv_job [OF assms(1)])
next
  case (Call_SetBarrier x)
  show ?thesis
  proof (cases "mBarrier (job s) = 0")
    case False
    with assms(3) Call_SetBarrier have "j' = job s" "p' = Idle \<or> p' = Stopped"
      by (auto simp: compare_exchange_strong_def split: if_splits)
    then show ?thesis
      by (intro inv_quiet [OF assms(1)]) (auto simp: inv_job [OF assms(1)])
  next
    case True
    with assms(3) Call_SetBarrier
    have x: "x \<noteq> cBarrierDoneState" and j': "j' = (job s)\<lparr>mBarrier := x\<rparr>" and p': "p' = Idle"
      by (auto simp: compare_exchange_strong_def split: if_splits)
    show ?thesis
    proof (rule inv_step [OF assms(1)])
      show "ok_job (mNumDependencies j') (mBarrier j') (trace s)"
        using inv_job [OF assms(1)] True x by (auto simp: j' ok_job_def barrier_done_nonzero)
      show "ok_pc (pcs s u) (mNumDependencies j') (mBarrier j') (JobFunction \<in> set (trace s))" for u
        using ok_pc_set_barrier [OF _ x, of "pcs s u"] inv_pc [OF assms(1), of u] True
        by (simp add: j')
    qed (simp_all add: p')
  qed
next
  case Call_Execute
  show ?thesis
  proof (cases "mNumDependencies (job s) = 0")
    case False
    with assms(3) Call_Execute have "j' = job s" "p' = Idle"
      by (auto simp: compare_exchange_strong_def split: if_splits)
    then show ?thesis
      by (intro inv_quiet [OF assms(1)]) (auto simp: inv_job [OF assms(1)])
  next
    case True
    with assms(3) Call_Execute
    have j': "j' = (job s)\<lparr>mNumDependencies := cExecutingState\<rparr>" and p': "p' = Run_Function"
      by (auto simp: compare_exchange_strong_def split: if_splits)
    have old: "mNumDependencies (job s) \<noteq> cExecutingState" "mNumDependencies (job s) \<noteq> cDoneState"
      using True sentinels_distinct by simp_all
    show ?thesis
      by (rule inv_waiting_step [OF assms(1) old])
         (use ok_job_waiting_fresh [OF inv_job [OF assms(1)] old] in
           \<open>simp_all add: j' p' sentinels_distinct\<close>)
  qed
next
  case (Call_AddDependency k)
  with assms(3) have m: "may_add (mNumDependencies (job s)) k"
    and j': "j' = AddDependency k (job s)" and p': "p' = Idle"
    by (auto split: if_splits)
  note old = below_not_sentinel [OF may_add_count [OF m]]
  note new = below_not_sentinel [OF may_add_below [OF m]]
  show ?thesis
    by (rule inv_waiting_step [OF assms(1)])
       (use old new in \<open>simp_all add: j' p' AddDependency_def\<close>)
next
  case (Call_RemoveDependency k)
  with assms(3) have m: "may_remove (mNumDependencies (job s)) k"
    and j': "j' = snd (RemoveDependency k (job s))" and p': "p' = Idle"
    by (auto split: if_splits)
  from m have "mNumDependencies (job s) < cDoneState" by (simp add: may_remove_def)
  note old = below_not_sentinel [OF this]
  note new = below_not_sentinel [OF may_remove_below [OF m]]
  show ?thesis
    by (rule inv_waiting_step [OF assms(1)])
       (use old new in \<open>simp_all add: j' p' RemoveDependency_def Let_def\<close>)
next
  case (Call_RemoveDependencyAndQueue k)
  with assms(3) have m: "may_remove (mNumDependencies (job s)) k"
    and j': "j' = snd (RemoveDependency k (job s))" and p': "p' = Idle \<or> p' = Call_QueueJob"
    by (auto simp: RemoveDependency_def Let_def split: if_splits bool.splits)
  from m have "mNumDependencies (job s) < cDoneState" by (simp add: may_remove_def)
  note old = below_not_sentinel [OF this]
  note new = below_not_sentinel [OF may_remove_below [OF m]]
  show ?thesis
    by (rule inv_waiting_step [OF assms(1)])
       (use old new p' in \<open>auto simp: j' RemoveDependency_def Let_def\<close>)
qed


text \<open>Accesses inside a call.\<close>

lemma inv_resume:
  assumes "inv s" "resume (pcs s t) (job s) = Some (j', p', es)"
  shows "inv (s\<lparr>job := j', pcs := (pcs s)(t := p'), trace := trace s @ es\<rparr>)"
proof (cases "pcs s t")
  case Idle
  with assms(2) show ?thesis by simp
next
  case Stopped
  with assms(2) show ?thesis by simp
next
  case Run_Function
  with assms(2) have j': "j' = job s" and p': "p' = Read_Barrier" and es: "es = [JobFunction]"
    by simp_all
  from inv_pc [OF assms(1), of t] Run_Function
  have me: "mNumDependencies (job s) = cExecutingState" "JobFunction \<notin> set (trace s)"
    "mBarrier (job s) \<noteq> cBarrierDoneState"
    by simp_all
  have cl: "claimed (pcs s t)" using Run_Function by simp
  show ?thesis
  proof (rule inv_step [OF assms(1)])
    show "ok_pc p' (mNumDependencies j') (mBarrier j') (JobFunction \<in> set (trace s @ es))"
      using me by (simp add: j' p' es)
    show "ok_pc (pcs s u) (mNumDependencies j') (mBarrier j') (JobFunction \<in> set (trace s @ es))"
      if "u \<noteq> t" for u
      by (rule ok_pc_unclaimed [OF inv_pc [OF assms(1)] inv_unique [OF assms(1) cl that]])
         (simp add: j')
    show "claimed p' \<Longrightarrow> claimed (pcs s t) \<or> (\<forall>u. \<not> claimed (pcs s u))"
      using cl by simp
    show "ok_job (mNumDependencies j') (mBarrier j') (trace s @ es)"
      using inv_job [OF assms(1)] me by (auto simp: ok_job_def j' es)
  qed
next
  case Read_Barrier
  with assms(2) have "j' = job s" "p' = Swap_Barrier (mBarrier (job s))" "es = []"
    by auto
  then show ?thesis
    using inv_pc [OF assms(1), of t] Read_Barrier
    by (intro inv_quiet [OF assms(1)]) (use inv_job [OF assms(1)] in simp_all)
next
  case (Swap_Barrier x)
  from inv_pc [OF assms(1), of t] Swap_Barrier
  have me: "mNumDependencies (job s) = cExecutingState" "JobFunction \<in> set (trace s)"
    "mBarrier (job s) \<noteq> cBarrierDoneState"
    by simp_all
  have cl: "claimed (pcs s t)" using Swap_Barrier by simp
  show ?thesis
  proof (cases "mBarrier (job s) = x")
    case False
    with assms(2) Swap_Barrier have "j' = job s" "p' = Read_Barrier" "es = []"
      by (auto simp: compare_exchange_strong_def)
    then show ?thesis
      using me cl by (intro inv_quiet [OF assms(1)]) (use inv_job [OF assms(1)] in simp_all)
  next
    case True
    with assms(2) Swap_Barrier me
    have j': "j' = (job s)\<lparr>mBarrier := cBarrierDoneState\<rparr>" and p': "p' = Mark_Done x"
      and es: "es = []" and x: "x \<noteq> cBarrierDoneState"
      by (auto simp: compare_exchange_strong_def)
    show ?thesis
    proof (rule inv_step [OF assms(1)])
      show "ok_pc p' (mNumDependencies j') (mBarrier j') (JobFunction \<in> set (trace s @ es))"
        using me x by (simp add: j' p' es)
      show "ok_pc (pcs s u) (mNumDependencies j') (mBarrier j') (JobFunction \<in> set (trace s @ es))"
        if "u \<noteq> t" for u
        by (rule ok_pc_unclaimed [OF inv_pc [OF assms(1)] inv_unique [OF assms(1) cl that]])
           (simp add: j')
      show "claimed p' \<Longrightarrow> claimed (pcs s t) \<or> (\<forall>u. \<not> claimed (pcs s u))"
        using cl by simp
      show "ok_job (mNumDependencies j') (mBarrier j') (trace s @ es)"
        using inv_job [OF assms(1)] me sentinels_distinct by (auto simp: ok_job_def j' es)
    qed
  qed
next
  case (Mark_Done x)
  from inv_pc [OF assms(1), of t] Mark_Done
  have me: "mNumDependencies (job s) = cExecutingState" "JobFunction \<in> set (trace s)"
    "mBarrier (job s) = cBarrierDoneState" "x \<noteq> cBarrierDoneState"
    by simp_all
  have cl: "claimed (pcs s t)" using Mark_Done by simp
  from assms(2) Mark_Done me
  have j': "j' = (job s)\<lparr>mNumDependencies := cDoneState\<rparr>" and p': "p' = Notify x"
    and es: "es = []"
    by (auto simp: compare_exchange_strong_def)
  show ?thesis
  proof (rule inv_step [OF assms(1)])
    show "ok_pc p' (mNumDependencies j') (mBarrier j') (JobFunction \<in> set (trace s @ es))"
      using me by (simp add: j' p' es)
    show "ok_pc (pcs s u) (mNumDependencies j') (mBarrier j') (JobFunction \<in> set (trace s @ es))"
      if "u \<noteq> t" for u
      by (rule ok_pc_unclaimed [OF inv_pc [OF assms(1)] inv_unique [OF assms(1) cl that]])
         (simp add: j')
    show "claimed p' \<Longrightarrow> claimed (pcs s t) \<or> (\<forall>u. \<not> claimed (pcs s u))"
      using cl by simp
    show "ok_job (mNumDependencies j') (mBarrier j') (trace s @ es)"
      using inv_job [OF assms(1)] me sentinels_distinct by (auto simp: ok_job_def j' es)
  qed
next
  case (Notify x)
  from inv_pc [OF assms(1), of t] Notify
  have me: "mNumDependencies (job s) = cDoneState" "x \<noteq> cBarrierDoneState"
    by simp_all
  from assms(2) Notify
  have j': "j' = job s" and p': "p' = Idle"
    and es: "es = (if x \<noteq> 0 then [OnJobFinished x] else [])"
    by simp_all
  show ?thesis
    by (rule inv_quiet [OF assms(1)])
       (use inv_job [OF assms(1)] me in \<open>auto simp: j' p' es ok_job_def\<close>)
next
  case Call_FreeJob
  with assms(2) have "j' = job s" "p' = Idle" "es = [FreeJob]" by simp_all
  then show ?thesis
    by (intro inv_quiet [OF assms(1)]) (simp_all add: ok_job_other [OF inv_job [OF assms(1)]])
next
  case Call_QueueJob
  with assms(2) have "j' = job s" "p' = Idle" "es = [QueueJob]" by simp_all
  then show ?thesis
    by (intro inv_quiet [OF assms(1)]) (simp_all add: ok_job_other [OF inv_job [OF assms(1)]])
qed

lemma step_inv: "step s s' \<Longrightarrow> inv s \<Longrightarrow> inv s'"
proof (induction rule: step.induct)
  case (call s t c j' p')
  from inv_call [OF call(3,1,2)] show ?case by simp
next
  case (resume s t j' p' es)
  from inv_resume [OF resume(2,1)] show ?case .
qed

lemma reachable_inv: "reachable s \<Longrightarrow> inv s"
  by (induction rule: reachable.induct) (auto intro: inv_start step_inv)

subsection \<open>Single calls\<close>

lemma fetch_barrier_eq:
  "fetch_barrier j = (j\<lparr>mBarrier := cBarrierDoneState\<rparr>, mBarrier j)"
  by (subst fetch_barrier.simps) (simp add: compare_exchange_strong_def)

lemma Execute_claim:
  assumes "mNumDependencies j = 0" "mBarrier j \<noteq> cBarrierDoneState"
  shows "Execute j =
           Inr (cDoneState, j\<lparr>mNumDependencies := cDoneState, mBarrier := cBarrierDoneState\<rparr>,
                JobFunction # (if mBarrier j \<noteq> 0 then [OnJobFinished (mBarrier j)] else []))"
  using assms
  by (simp add: Execute_def compare_exchange_strong_def fetch_barrier_eq)

lemma Execute_skip:
  "mNumDependencies j \<noteq> 0 \<Longrightarrow> Execute j = Inr (mNumDependencies j, j, [])"
  by (simp add: Execute_def compare_exchange_strong_def)

lemma Execute_new:
  "Execute (Job_new n) =
     (if n = 0
      then Inr (cDoneState,
                (Job_new 0)\<lparr>mNumDependencies := cDoneState, mBarrier := cBarrierDoneState\<rparr>,
                [JobFunction])
      else Inr (n, Job_new n, []))"
proof (cases "n = 0")
  case True
  have "mNumDependencies (Job_new 0) = 0" "mBarrier (Job_new 0) \<noteq> cBarrierDoneState"
    "mBarrier (Job_new 0) = 0"
    by (simp_all add: Job_new_def barrier_done_nonzero)
  with Execute_claim [of "Job_new 0"] True show ?thesis by simp
next
  case False
  then have "mNumDependencies (Job_new n) \<noteq> 0" by (simp add: Job_new_def)
  from Execute_skip [OF this] False show ?thesis by (simp add: Job_new_def)
qed

lemma IsDone_new: "IsDone (Job_new n) \<longleftrightarrow> n = cDoneState"
  by (simp add: IsDone_def Job_new_def)

lemma CanBeExecuted_new: "CanBeExecuted (Job_new n) \<longleftrightarrow> n = 0"
  by (simp add: CanBeExecuted_def Job_new_def)

lemma reads_as_count_iff:
  "reads_as_count n \<longleftrightarrow> n \<noteq> cDoneState \<and> n \<noteq> cExecutingState"
  using sentinels_distinct
  by (auto simp: reads_as_count_def Execute_new IsDone_new CanBeExecuted_new)

lemma step_barrier_done:
  assumes "step s s'" "mBarrier (job s) = cBarrierDoneState"
  shows "mBarrier (job s') = cBarrierDoneState"
  using assms
proof (induction rule: step.induct)
  case (call s t c j' p')
  then show ?case
    by (cases c)
       (auto simp: AddRef_def AddDependency_def RemoveDependency_def Let_def
          compare_exchange_strong_def barrier_done_nonzero split: if_splits bool.splits)
next
  case (resume s t j' p' es)
  then show ?case
    by (cases "pcs s t") (auto simp: compare_exchange_strong_def split: if_splits)
qed

lemma resume_notifies:
  assumes "resume p j = Some (j', p', es)" "OnJobFinished x \<in> set es"
  shows "p = Notify x \<and> x \<noteq> 0"
  using assms by (cases p) (auto simp: compare_exchange_strong_def split: if_splits)

subsection \<open>Schedules\<close>

lemma fire_step: "fire m s = Some s' \<Longrightarrow> step s s'"
proof (cases m)
  case (Pair t c)
  assume f: "fire m s = Some s'"
  show ?thesis
  proof (cases "pcs s t = Idle")
    case True
    with f Pair obtain j' p' where "enter c (job s) = Some (j', p')"
      and "s' = s\<lparr>job := j', pcs := (pcs s)(t := p')\<rparr>"
      by (auto split: option.splits)
    with True show ?thesis by (auto intro: step.call)
  next
    case False
    with f Pair obtain j' p' es where "resume (pcs s t) (job s) = Some (j', p', es)"
      and "s' = s\<lparr>job := j', pcs := (pcs s)(t := p'), trace := trace s @ es\<rparr>"
      by (auto split: option.splits)
    then show ?thesis by (auto intro: step.resume)
  qed
qed

lemma run_reachable: "run ms s = Some s' \<Longrightarrow> reachable s \<Longrightarrow> reachable s'"
proof (induction ms arbitrary: s)
  case Nil
  then show ?case by simp
next
  case (Cons m ms)
  then obtain s1 where "fire m s = Some s1" "run ms s1 = Some s'"
    by (auto split: option.splits)
  with Cons show ?case
    by (blast intro: reachable.step fire_step)
qed

text \<open>A thread that runs \<^verbatim>\<open>Execute\<close> with no other thread in between does what the
  uninterrupted call does.\<close>

lemma Execute_alone:
  assumes "pcs s t = Idle" "mNumDependencies (job s) = 0" "mBarrier (job s) \<noteq> cBarrierDoneState"
  shows "\<exists>v j' es. Execute (job s) = Inr (v, j', es) \<and>
           run [(t, Call_Execute), (t, Call_Execute), (t, Call_Execute), (t, Call_Execute),
                (t, Call_Execute), (t, Call_Execute)] s =
             Some (s\<lparr>job := j', trace := trace s @ es\<rparr>)"
  using assms sentinels_distinct
  by (simp add: Execute_claim compare_exchange_strong_def fun_upd_idem)

lemma solo_run:
  "run solo_schedule (start 0) =
     Some \<lparr>job = finished_job, pcs = (\<lambda>t. Idle), trace = [JobFunction, OnJobFinished 7]\<rparr>"
  by (simp add: solo_schedule_def start_def Job_new_def finished_job_def
        compare_exchange_strong_def cBarrierDoneState_def cExecutingState_def cDoneState_def
        fun_upd_idem)

lemma solo_reachable:
  "reachable \<lparr>job = finished_job, pcs = (\<lambda>t. Idle), trace = [JobFunction, OnJobFinished 7]\<rparr>"
  by (rule run_reachable [OF solo_run]) (simp add: reachable.start cDoneState_def)

lemma midway_run:
  "run midway_schedule (start 0) =
     Some \<lparr>job = finished_job\<lparr>mNumDependencies := cExecutingState\<rparr>,
           pcs = (\<lambda>t. Idle)(0 := Mark_Done 7), trace = [JobFunction]\<rparr>"
  by (simp add: midway_schedule_def solo_schedule_def start_def Job_new_def finished_job_def
        compare_exchange_strong_def cBarrierDoneState_def cExecutingState_def cDoneState_def
        fun_upd_idem)

lemma midway_reachable:
  "reachable \<lparr>job = finished_job\<lparr>mNumDependencies := cExecutingState\<rparr>,
           pcs = (\<lambda>t. Idle)(0 := Mark_Done 7), trace = [JobFunction]\<rparr>"
  by (rule run_reachable [OF midway_run]) (simp add: reachable.start cDoneState_def)

lemma first_step:
  "step (start 0) ((start 0)\<lparr>job := (Job_new 0)\<lparr>mNumDependencies := cExecutingState\<rparr>,
                              pcs := (pcs (start 0))(0 := Run_Function)\<rparr>)"
  by (rule step.call [where c = Call_Execute])
     (simp_all add: start_def compare_exchange_strong_def Job_new_def)

lemma late_step:
  "step \<lparr>job = finished_job, pcs = (\<lambda>t. Idle), trace = []\<rparr>
        \<lparr>job = AddRef finished_job, pcs = (\<lambda>t. Idle), trace = []\<rparr>"
  using step.call [of "\<lparr>job = finished_job, pcs = (\<lambda>t. Idle), trace = []\<rparr>" 0 Call_AddRef
      "AddRef finished_job" Idle]
  by (simp add: fun_upd_idem)

subsection \<open>The counter, step by step\<close>

lemma may_add_transition:
  assumes "may_add n k"
  shows "contract_transition n (n + word_of_int k)"
proof -
  have "uint n \<le> uint (n + word_of_int k)"
    using assms by (simp add: may_add_uint) (simp add: may_add_def)
  then have "n \<le> n + word_of_int k" by (simp add: word_le_def)
  moreover have "0 < n" using assms by (simp add: may_add_def)
  ultimately show ?thesis
    using may_add_below [OF assms] unfolding contract_transition_def by auto
qed

lemma may_remove_transition:
  assumes "may_remove n k"
  shows "contract_transition n (n - word_of_int k)"
proof -
  have "uint (n - word_of_int k) \<le> uint n"
    using assms by (simp add: may_remove_uint) (simp add: may_remove_def)
  then have "n - word_of_int k \<le> n" by (simp add: word_le_def)
  moreover have "0 < n" "n < cDoneState" using assms by (simp_all add: may_remove_def)
  ultimately show ?thesis
    unfolding contract_transition_def by auto
qed

lemma enter_transition:
  assumes "enter c j = Some (j', p')"
  shows "contract_transition (mNumDependencies j) (mNumDependencies j')"
proof (cases c)
  case (Call_AddDependency k)
  with assms have "may_add (mNumDependencies j) k"
    "mNumDependencies j' = mNumDependencies j + word_of_int k"
    by (auto simp: AddDependency_def split: if_splits)
  then show ?thesis by (simp add: may_add_transition)
next
  case (Call_RemoveDependency k)
  with assms have "may_remove (mNumDependencies j) k"
    "mNumDependencies j' = mNumDependencies j - word_of_int k"
    by (auto simp: RemoveDependency_def Let_def split: if_splits)
  then show ?thesis by (simp add: may_remove_transition)
next
  case (Call_RemoveDependencyAndQueue k)
  with assms have "may_remove (mNumDependencies j) k"
    "mNumDependencies j' = mNumDependencies j - word_of_int k"
    by (auto simp: RemoveDependency_def Let_def split: if_splits bool.splits)
  then show ?thesis by (simp add: may_remove_transition)
qed (use assms in \<open>auto simp: contract_transition_def AddRef_def Let_def
       compare_exchange_strong_def split: if_splits\<close>)

lemma resume_transition:
  assumes "resume p j = Some (j', p', es)"
  shows "contract_transition (mNumDependencies j) (mNumDependencies j')"
  using assms
  by (cases p) (auto simp: contract_transition_def compare_exchange_strong_def split: if_splits)

lemma contract_transition_final:
  assumes "contract_transition n n'" "n = cExecutingState \<or> n = cDoneState"
  shows "n' = cExecutingState \<or> n' = cDoneState"
proof -
  have "\<not> cExecutingState < cDoneState" "\<not> cDoneState < cDoneState"
    by (simp_all add: cExecutingState_def cDoneState_def)
  with assms sentinels_distinct show ?thesis
    unfolding contract_transition_def by auto
qed

subsection \<open>QueueJob is called at most once\<close>

lemma started_transition:
  assumes "contract_transition n n'" "started n"
  shows "started n'"
proof -
  have "\<not> cExecutingState < cDoneState" "\<not> cDoneState < cDoneState" "\<not> (0::uint32) < 0"
    by (simp_all add: cExecutingState_def cDoneState_def)
  with assms show ?thesis
    unfolding contract_transition_def started_def by auto
qed

lemma queue_inv_start: "queue_inv (start n)"
  by (simp add: queue_inv_def start_def)

lemma enter_queue:
  assumes "enter c j = Some (j', Call_QueueJob)"
  shows "\<not> started (mNumDependencies j) \<and> mNumDependencies j' = 0"
proof (cases c)
  case (Call_RemoveDependencyAndQueue k)
  with assms have m: "may_remove (mNumDependencies j) k" and z: "mNumDependencies j' = 0"
    by (auto simp: RemoveDependency_def Let_def split: if_splits bool.splits)
  from m have "0 < mNumDependencies j" "mNumDependencies j < cDoneState"
    by (simp_all add: may_remove_def)
  then have "\<not> started (mNumDependencies j)"
    using below_not_sentinel [of "mNumDependencies j"] by (auto simp: started_def)
  with z show ?thesis by simp
qed (use assms in \<open>auto simp: Let_def compare_exchange_strong_def RemoveDependency_def
       split: if_splits\<close>)

lemma queue_inv_call:
  assumes "queue_inv s" "pcs s t = Idle" "enter c (job s) = Some (j', p')"
  shows "queue_inv (s\<lparr>job := j', pcs := (pcs s)(t := p')\<rparr>)"
proof (cases "p' = Call_QueueJob")
  case True
  with enter_queue assms(3) have old: "\<not> started (mNumDependencies (job s))"
    and new: "mNumDependencies j' = 0"
    by blast+
  from old assms(1) have "\<forall>u. pcs s u \<noteq> Call_QueueJob" "QueueJob \<notin> set (trace s)"
    unfolding queue_inv_def by blast+
  with new True assms(1) show ?thesis
    unfolding queue_inv_def by (simp add: started_def)
next
  case False
  have "started (mNumDependencies j')" if "started (mNumDependencies (job s))"
    using started_transition [OF enter_transition [OF assms(3)] that] .
  with False assms(1,2) show ?thesis
    unfolding queue_inv_def by (simp (no_asm_simp)) metis
qed


lemma resume_queue:
  assumes "resume p j = Some (j', p', es)"
  shows "p' \<noteq> Call_QueueJob \<and> (QueueJob \<in> set es \<longrightarrow> p = Call_QueueJob) \<and>
         (p = Call_QueueJob \<longrightarrow> es = [QueueJob] \<and> j' = j)"
  using assms by (cases p) (auto simp: compare_exchange_strong_def split: if_splits)

lemma queue_inv_resume:
  assumes "queue_inv s" "resume (pcs s t) (job s) = Some (j', p', es)"
  shows "queue_inv (s\<lparr>job := j', pcs := (pcs s)(t := p'), trace := trace s @ es\<rparr>)"
proof (cases "pcs s t = Call_QueueJob")
  case True
  with resume_queue [OF assms(2)] have es: "es = [QueueJob]" and j': "j' = job s"
    and p': "p' \<noteq> Call_QueueJob"
    by simp_all
  from True assms(1) have st: "started (mNumDependencies (job s))"
    and fresh: "QueueJob \<notin> set (trace s)" and only: "\<forall>u. u \<noteq> t \<longrightarrow> pcs s u \<noteq> Call_QueueJob"
    unfolding queue_inv_def by blast+
  from fresh have "count_list (trace s) QueueJob = 0" by (simp add: count_list_0_iff)
  with st only p' show ?thesis
    unfolding queue_inv_def by (simp add: es j')
next
  case False
  with resume_queue [OF assms(2)] have es: "QueueJob \<notin> set es" and p': "p' \<noteq> Call_QueueJob"
    by auto
  from es have c: "count_list es QueueJob = 0" by (simp add: count_list_0_iff)
  have "started (mNumDependencies j')" if "started (mNumDependencies (job s))"
    using started_transition [OF resume_transition [OF assms(2)] that] .
  with es p' c assms(1) show ?thesis
    unfolding queue_inv_def by (simp (no_asm_simp)) metis
qed

lemma reachable_queue_inv: "reachable s \<Longrightarrow> queue_inv s"
proof (induction rule: reachable.induct)
  case (start n)
  show ?case by (rule queue_inv_start)
next
  case (step s s')
  from step(2,3) show ?case
  proof (induction rule: step.induct)
    case (call s t c j' p')
    then show ?case by (simp add: queue_inv_call)
  next
    case (resume s t j' p' es)
    then show ?case by (simp add: queue_inv_resume)
  qed
qed

lemma queue_run:
  "run queue_schedule (start 2) =
     Some \<lparr>job = Job_new 0, pcs = (\<lambda>t. Idle), trace = [QueueJob]\<rparr>"
  by (simp add: queue_schedule_def start_def Job_new_def may_remove_def RemoveDependency_def
        cDoneState_def word_less_def fun_upd_idem)

lemma queue_reachable:
  "reachable \<lparr>job = Job_new 0, pcs = (\<lambda>t. Idle), trace = [QueueJob]\<rparr>"
  by (rule run_reachable [OF queue_run]) (simp add: reachable.start cDoneState_def)

subsection \<open>Reference counts\<close>

lemma length_ref_ops:
  "length cs = count_list cs Do_AddRef + count_list cs Do_Release"
proof (induction cs)
  case Nil
  then show ?case by simp
next
  case (Cons c cs)
  then show ?case by (cases c) simp_all
qed

lemma unat_succ: "(r::uint32) + 1 \<noteq> 0 \<Longrightarrow> unat (r + 1) = unat r + 1"
  using unatSuc [of r] by (simp add: add.commute)

lemma unat_pred: "(r::uint32) \<noteq> 0 \<Longrightarrow> unat (r - 1) = unat r - 1"
  by (simp add: unat_minus_one)

lemma unat_pos: "(r::uint32) \<noteq> 0 \<Longrightarrow> 0 < unat r"
  by (simp add: unat_gt_0)

lemma ref_calls_balanced:
  assumes "cs \<noteq> []" "never_zero_early cs j" "mReferenceCount j \<noteq> 0"
    and "unat (mReferenceCount j) + count_list cs Do_AddRef = count_list cs Do_Release"
  shows "snd (ref_calls cs j) = replicate (length cs - 1) [] @ [ [FreeJob] ] \<and>
         last cs = Do_Release \<and> mReferenceCount (fst (ref_calls cs j)) = 0"
  using assms
proof (induction cs arbitrary: j)
  case Nil
  then show ?case by simp
next
  case (Cons c cs)
  show ?case
  proof (cases "cs = []")
    case True
    with Cons.prems have c: "c = Do_Release" and one: "unat (mReferenceCount j) = 1"
      using unat_pos [of "mReferenceCount j"] by (cases c; simp)+
    from one have "mReferenceCount j = 1"
      by (simp add: word_unat_eq_iff)
    with True c show ?thesis
      by (simp add: Release_def)
  next
    case False
    let ?j = "fst (ref_call c j)"
    from Cons.prems False have nz: "mReferenceCount ?j \<noteq> 0" and nze: "never_zero_early cs ?j"
      by simp_all
    have ev: "snd (ref_call c j) = []"
      using nz by (cases c) (simp_all add: Release_def Let_def)
    have bal: "unat (mReferenceCount ?j) + count_list cs Do_AddRef = count_list cs Do_Release"
    proof (cases c)
      case Do_AddRef
      with nz have "unat (mReferenceCount ?j) = unat (mReferenceCount j) + 1"
        by (simp add: AddRef_def unat_succ)
      with Cons.prems(4) Do_AddRef show ?thesis by simp
    next
      case Do_Release
      with Cons.prems(3) have "unat (mReferenceCount ?j) = unat (mReferenceCount j) - 1"
        by (simp add: Release_def Let_def unat_pred)
      with Cons.prems(4) Do_Release unat_pos [OF Cons.prems(3)] show ?thesis by simp
    qed
    from Cons.IH [OF False nze nz bal] ev False show ?thesis
      by (cases "ref_call c j"; cases "ref_calls cs (fst (ref_call c j))")
         (simp add: replicate_app_Cons_same Suc_diff_Suc flip: replicate_Suc)
  qed
qed

section \<open>The claims\<close>

text \<open>
  C1. For every job the payload is invoked at most once, however many calls of
  \<^verbatim>\<open>Execute\<close> there are and however they interleave: in every reachable state the
  trace holds at most one \<open>JobFunction\<close>. Only a thread whose compare-and-swap took
  the counter from \<open>0\<close> to \<open>cExecutingState\<close> reaches \<open>Run_Function\<close>, the one
  place where the payload is called. Once the payload has been called the counter
  is \<open>cExecutingState\<close> or \<open>cDoneState\<close>, never \<open>0\<close>, so a later \<^verbatim>\<open>Execute\<close>
  returns at once and leaves the job as it is.
\<close>

theorem payload_at_most_once:
  "(reachable s \<longrightarrow>
      count_list (trace s) JobFunction \<le> 1 \<and>
      (JobFunction \<in> set (trace s) \<longrightarrow>
         (mNumDependencies (job s) = cExecutingState \<or> mNumDependencies (job s) = cDoneState) \<and>
         mNumDependencies (job s) \<noteq> 0 \<and>
         enter Call_Execute (job s) = Some (job s, Idle))) \<and>
   (enter c j = Some (j', Run_Function) \<longrightarrow>
      c = Call_Execute \<and> mNumDependencies j = 0 \<and> mNumDependencies j' = cExecutingState) \<and>
   (resume p k = Some (k', p', es) \<longrightarrow>
      p' \<noteq> Run_Function \<and> (JobFunction \<in> set es \<longrightarrow> p = Run_Function))"
proof (intro conjI impI)
  assume r: "reachable s"
  note j = inv_job [OF reachable_inv [OF r]]
  show "count_list (trace s) JobFunction \<le> 1"
    using j by (simp add: ok_job_def)
  assume f: "JobFunction \<in> set (trace s)"
  show n: "mNumDependencies (job s) = cExecutingState \<or> mNumDependencies (job s) = cDoneState"
    using j f by (simp add: ok_job_def)
  then show n0: "mNumDependencies (job s) \<noteq> 0"
    using sentinels_distinct by auto
  then show "enter Call_Execute (job s) = Some (job s, Idle)"
    by (simp add: compare_exchange_strong_def)
next
  assume "enter c j = Some (j', Run_Function)"
  then have "c = Call_Execute \<and> mNumDependencies j = 0 \<and> mNumDependencies j' = cExecutingState"
    by (cases c)
       (auto simp: Let_def compare_exchange_strong_def RemoveDependency_def
          split: if_splits bool.splits)
  then show "c = Call_Execute" "mNumDependencies j = 0" "mNumDependencies j' = cExecutingState"
    by simp_all
next
  assume "resume p k = Some (k', p', es)"
  then have "p' \<noteq> Run_Function \<and> (JobFunction \<in> set es \<longrightarrow> p = Run_Function)"
    by (cases p) (auto simp: compare_exchange_strong_def split: if_splits)
  then show "p' \<noteq> Run_Function" "JobFunction \<in> set es \<Longrightarrow> p = Run_Function"
    by simp_all
qed

theorem payload_at_most_once_witness:
  "reachable \<lparr>job = finished_job, pcs = (\<lambda>t. Idle), trace = [JobFunction, OnJobFinished 7]\<rparr> \<and>
   count_list [JobFunction, OnJobFinished 7] JobFunction \<le> 1 \<and>
   enter Call_Execute finished_job = Some (finished_job, Idle) \<and>
   enter Call_Execute (Job_new 0) =
     Some ((Job_new 0)\<lparr>mNumDependencies := cExecutingState\<rparr>, Run_Function) \<and>
   resume Run_Function (Job_new 0) = Some (Job_new 0, Read_Barrier, [JobFunction])"
  using solo_reachable
    payload_at_most_once [of
      "\<lparr>job = finished_job, pcs = (\<lambda>t. Idle), trace = [JobFunction, OnJobFinished 7]\<rparr>"
      Call_Execute "Job_new 0" "(Job_new 0)\<lparr>mNumDependencies := cExecutingState\<rparr>"
      Run_Function "Job_new 0" "Job_new 0" Read_Barrier "[JobFunction]"]
  by (simp add: compare_exchange_strong_def Job_new_def)

text \<open>
  C2. Inside a successful \<^verbatim>\<open>Execute\<close> the steps come in this order: the payload
  returns, the barrier slot is replaced by \<open>cBarrierDoneState\<close>, the counter goes
  from \<open>cExecutingState\<close> to \<open>cDoneState\<close>, and only then \<^verbatim>\<open>OnJobFinished\<close> is
  called, and only on a captured pointer that is neither \<open>0\<close> nor
  \<open>cBarrierDoneState\<close>. In every reachable state: a thread about to read or swap
  the slot has the payload behind it, the slot not yet frozen and the counter
  still \<open>cExecutingState\<close>; a thread about to mark the job done sees the slot
  frozen and the counter still \<open>cExecutingState\<close>; a thread about to notify sees
  the counter \<open>cDoneState\<close>; a frozen slot implies that the payload was called,
  a done counter implies a frozen slot, and a notification in the trace implies
  a done counter. A call that runs alone makes its calls in the same order.
\<close>

theorem execute_order:
  "(reachable s \<longrightarrow>
      (pcs s t = Run_Function \<longrightarrow>
         JobFunction \<notin> set (trace s) \<and> mBarrier (job s) \<noteq> cBarrierDoneState \<and>
         mNumDependencies (job s) = cExecutingState) \<and>
      (pcs s t = Read_Barrier \<or> pcs s t = Swap_Barrier x \<longrightarrow>
         JobFunction \<in> set (trace s) \<and> mBarrier (job s) \<noteq> cBarrierDoneState \<and>
         mNumDependencies (job s) = cExecutingState) \<and>
      (pcs s t = Mark_Done x \<longrightarrow>
         JobFunction \<in> set (trace s) \<and> mBarrier (job s) = cBarrierDoneState \<and>
         mNumDependencies (job s) = cExecutingState \<and> x \<noteq> cBarrierDoneState) \<and>
      (pcs s t = Notify x \<longrightarrow>
         JobFunction \<in> set (trace s) \<and> mBarrier (job s) = cBarrierDoneState \<and>
         mNumDependencies (job s) = cDoneState \<and> x \<noteq> cBarrierDoneState) \<and>
      (mBarrier (job s) = cBarrierDoneState \<longrightarrow> JobFunction \<in> set (trace s)) \<and>
      (mNumDependencies (job s) = cDoneState \<longrightarrow> mBarrier (job s) = cBarrierDoneState) \<and>
      (OnJobFinished x \<in> set (trace s) \<longrightarrow>
         mNumDependencies (job s) = cDoneState \<and> x \<noteq> 0 \<and> x \<noteq> cBarrierDoneState)) \<and>
   (resume p j = Some (j', p', es) \<longrightarrow> OnJobFinished x \<in> set es \<longrightarrow> p = Notify x \<and> x \<noteq> 0) \<and>
   (mNumDependencies k = 0 \<longrightarrow> mBarrier k \<noteq> cBarrierDoneState \<longrightarrow>
      Execute k =
        Inr (cDoneState, k\<lparr>mNumDependencies := cDoneState, mBarrier := cBarrierDoneState\<rparr>,
             JobFunction # (if mBarrier k \<noteq> 0 then [OnJobFinished (mBarrier k)] else [])))"
proof (intro conjI impI)
  assume r: "reachable s"
  note i = reachable_inv [OF r]
  note j = inv_job [OF i]
  note p = inv_pc [OF i, of t]
  show b: "JobFunction \<in> set (trace s)" if "mBarrier (job s) = cBarrierDoneState"
    using j that by (simp add: ok_job_def)
  show d: "mBarrier (job s) = cBarrierDoneState" if "mNumDependencies (job s) = cDoneState"
    using j that by (simp add: ok_job_def)
  {
    assume "pcs s t = Run_Function"
    with p show "JobFunction \<notin> set (trace s)" "mBarrier (job s) \<noteq> cBarrierDoneState"
      "mNumDependencies (job s) = cExecutingState"
      by simp_all
  }
  {
    assume "pcs s t = Read_Barrier \<or> pcs s t = Swap_Barrier x"
    with p show "JobFunction \<in> set (trace s)" "mBarrier (job s) \<noteq> cBarrierDoneState"
      "mNumDependencies (job s) = cExecutingState"
      by auto
  }
  {
    assume "pcs s t = Mark_Done x"
    with p show "JobFunction \<in> set (trace s)" "mBarrier (job s) = cBarrierDoneState"
      "mNumDependencies (job s) = cExecutingState" "x \<noteq> cBarrierDoneState"
      by simp_all
  }
  {
    assume "pcs s t = Notify x"
    with p show n: "mNumDependencies (job s) = cDoneState" and "x \<noteq> cBarrierDoneState"
      by simp_all
    from d [OF n] show "mBarrier (job s) = cBarrierDoneState" .
    from b [OF this] show "JobFunction \<in> set (trace s)" .
  }
  {
    assume "OnJobFinished x \<in> set (trace s)"
    with j show "mNumDependencies (job s) = cDoneState" "x \<noteq> 0" "x \<noteq> cBarrierDoneState"
      by (simp_all add: ok_job_def)
  }
next
  assume "resume p j = Some (j', p', es)" "OnJobFinished x \<in> set es"
  from resume_notifies [OF this] show "p = Notify x" "x \<noteq> 0" by simp_all
next
  assume "mNumDependencies k = 0" "mBarrier k \<noteq> cBarrierDoneState"
  then show "Execute k =
        Inr (cDoneState, k\<lparr>mNumDependencies := cDoneState, mBarrier := cBarrierDoneState\<rparr>,
             JobFunction # (if mBarrier k \<noteq> 0 then [OnJobFinished (mBarrier k)] else []))"
    by (rule Execute_claim)
qed

theorem execute_order_witness:
  "reachable \<lparr>job = finished_job\<lparr>mNumDependencies := cExecutingState\<rparr>,
             pcs = (\<lambda>t. Idle)(0 := Mark_Done 7), trace = [JobFunction]\<rparr> \<and>
   mBarrier (finished_job\<lparr>mNumDependencies := cExecutingState\<rparr>) = cBarrierDoneState \<and>
   mNumDependencies (finished_job\<lparr>mNumDependencies := cExecutingState\<rparr>) = cExecutingState \<and>
   (7 :: intptr) \<noteq> cBarrierDoneState \<and>
   resume (Notify 7) finished_job = Some (finished_job, Idle, [OnJobFinished 7]) \<and>
   Execute ((Job_new 0)\<lparr>mBarrier := 7\<rparr>) =
     Inr (cDoneState, finished_job, [JobFunction, OnJobFinished 7])"
  using midway_reachable
    execute_order [of
      "\<lparr>job = finished_job\<lparr>mNumDependencies := cExecutingState\<rparr>,
        pcs = (\<lambda>t. Idle)(0 := Mark_Done 7), trace = [JobFunction]\<rparr>"
      0 7 "Notify 7" finished_job finished_job Idle "[OnJobFinished 7]"
      "(Job_new 0)\<lparr>mBarrier := 7\<rparr>"]
  by (simp add: finished_job_def Job_new_def cBarrierDoneState_def)

text \<open>
  The spec lists the transitions of the dependency counter as \<open>N \<rightarrow> N-k\<close>,
  \<open>0 \<rightarrow> EXECUTING\<close> and \<open>EXECUTING \<rightarrow> DONE\<close>, and says that no operation moves a
  counter that is \<open>DONE\<close> or \<open>EXECUTING\<close> back to a count. \<^verbatim>\<open>AddDependency(1)\<close> on a
  fresh job with one dependency, a call its contract allows, takes the counter
  from 1 to 2, which is none of the three; and on a finished job, where nothing in
  the operation itself stops it, it takes the counter from \<open>DONE\<close> to the count
  \<open>0xd0d0d0d1\<close>.
\<close>

theorem counter_transitions_counterexample:
  "\<not> listed_transition (mNumDependencies (Job_new 1))
        (mNumDependencies (AddDependency 1 (Job_new 1))) \<and>
   mNumDependencies (AddDependency 1 (Job_new 1)) \<noteq> mNumDependencies (Job_new 1) \<and>
   enter (Call_AddDependency 1) (Job_new 1) = Some (AddDependency 1 (Job_new 1), Idle) \<and>
   IsDone finished_job \<and>
   mNumDependencies (AddDependency 1 finished_job) = 0xd0d0d0d1 \<and>
   (0xd0d0d0d1 :: uint32) \<noteq> cDoneState \<and> (0xd0d0d0d1 :: uint32) \<noteq> cExecutingState"
  by (simp add: listed_transition_def Job_new_def AddDependency_def IsDone_def may_add_def
        finished_job_def cDoneState_def cExecutingState_def word_le_def)

text \<open>
  C3, amended. When \<^verbatim>\<open>AddDependency\<close> and \<^verbatim>\<open>RemoveDependency\<close> are called within
  their contract (only on a counter that is a count \<open>N\<close> with \<open>0 < N < DONE\<close>,
  removing \<open>k \<le> N\<close> or adding \<open>n \<ge> 0\<close> with \<open>N + n < DONE\<close>), every atomic step
  leaves the counter as it is or moves it from such an \<open>N\<close> down, from such an
  \<open>N\<close> up to a count below \<open>DONE\<close>, from exactly \<open>0\<close> to \<open>EXECUTING\<close>, or from
  \<open>EXECUTING\<close> to \<open>DONE\<close>. Once the counter is \<open>EXECUTING\<close> or \<open>DONE\<close> no step
  moves it back to a count, and \<open>DONE\<close> is final.
\<close>

theorem counter_transitions:
  assumes "step s s'"
  shows "contract_transition (mNumDependencies (job s)) (mNumDependencies (job s')) \<and>
         (mNumDependencies (job s) = cExecutingState \<or> mNumDependencies (job s) = cDoneState \<longrightarrow>
            mNumDependencies (job s') = cExecutingState \<or> mNumDependencies (job s') = cDoneState) \<and>
         (mNumDependencies (job s) = cDoneState \<longrightarrow> mNumDependencies (job s') = cDoneState)"
proof -
  have t: "contract_transition (mNumDependencies (job s)) (mNumDependencies (job s'))"
    using assms
  proof (induction rule: step.induct)
    case (call s t c j' p')
    then show ?case by (simp add: enter_transition)
  next
    case (resume s t j' p' es)
    then show ?case by (simp add: resume_transition)
  qed
  moreover have "mNumDependencies (job s') = cDoneState" if "mNumDependencies (job s) = cDoneState"
  proof -
    have "\<not> cDoneState < cDoneState" by simp
    with t that sentinels_distinct show ?thesis
      unfolding contract_transition_def by auto
  qed
  ultimately show ?thesis
    using contract_transition_final by blast
qed

theorem counter_transitions_witness:
  "step (start 0) ((start 0)\<lparr>job := (Job_new 0)\<lparr>mNumDependencies := cExecutingState\<rparr>,
                              pcs := (pcs (start 0))(0 := Run_Function)\<rparr>) \<and>
   contract_transition 0 cExecutingState"
  using first_step counter_transitions [OF first_step]
  by (simp add: start_def Job_new_def)

text \<open>
  C4. \<^verbatim>\<open>SetBarrier(b)\<close> returns true and stores \<open>b\<close> if and only if the barrier slot
  was \<open>0\<close> at its compare-and-swap. On a slot that holds \<open>cBarrierDoneState\<close> (the
  job has finished) it returns false and leaves the job as it is. Once the slot
  holds \<open>cBarrierDoneState\<close> no step of any thread changes it.
\<close>

theorem SetBarrier_once:
  "(mBarrier j = 0 \<longrightarrow> SetBarrier b j = Inr (True, j\<lparr>mBarrier := b\<rparr>)) \<and>
   (mBarrier j \<noteq> 0 \<longrightarrow> (\<forall>j'. SetBarrier b j \<noteq> Inr (True, j'))) \<and>
   (mBarrier j = cBarrierDoneState \<longrightarrow> SetBarrier b j = Inr (False, j)) \<and>
   (mBarrier (job s) = cBarrierDoneState \<longrightarrow> step s s' \<longrightarrow>
      mBarrier (job s') = cBarrierDoneState)"
proof (intro conjI impI allI)
  show "SetBarrier b j = Inr (True, j\<lparr>mBarrier := b\<rparr>)" if "mBarrier j = 0"
    using that by (simp add: SetBarrier_def compare_exchange_strong_def)
  show "SetBarrier b j \<noteq> Inr (True, j')" if "mBarrier j \<noteq> 0" for j'
    using that by (simp add: SetBarrier_def compare_exchange_strong_def)
  show "SetBarrier b j = Inr (False, j)" if "mBarrier j = cBarrierDoneState"
    using that by (simp add: SetBarrier_def compare_exchange_strong_def barrier_done_nonzero)
  show "mBarrier (job s') = cBarrierDoneState"
    if "mBarrier (job s) = cBarrierDoneState" "step s s'"
    using that by (simp add: step_barrier_done)
qed

theorem SetBarrier_once_witness:
  "mBarrier (Job_new 1) = 0 \<and>
   SetBarrier 7 (Job_new 1) = Inr (True, (Job_new 1)\<lparr>mBarrier := 7\<rparr>) \<and>
   mBarrier finished_job = cBarrierDoneState \<and> mBarrier finished_job \<noteq> 0 \<and>
   SetBarrier 7 finished_job = Inr (False, finished_job) \<and>
   step \<lparr>job = finished_job, pcs = (\<lambda>t. Idle), trace = []\<rparr>
        \<lparr>job = AddRef finished_job, pcs = (\<lambda>t. Idle), trace = []\<rparr> \<and>
   mBarrier (AddRef finished_job) = cBarrierDoneState"
  using late_step
    SetBarrier_once [of "Job_new 1" 7 "\<lparr>job = finished_job, pcs = (\<lambda>t. Idle), trace = []\<rparr>"
      "\<lparr>job = AddRef finished_job, pcs = (\<lambda>t. Idle), trace = []\<rparr>"]
    SetBarrier_once [of finished_job 7 "\<lparr>job = finished_job, pcs = (\<lambda>t. Idle), trace = []\<rparr>"
      "\<lparr>job = AddRef finished_job, pcs = (\<lambda>t. Idle), trace = []\<rparr>"]
  by (simp add: Job_new_def finished_job_def barrier_done_nonzero)

text \<open>
  C5. \<^verbatim>\<open>RemoveDependency(n)\<close> subtracts \<open>n\<close> from the dependency counter in one
  atomic access. The call whose resulting value is zero, and no other, returns
  true; \<^verbatim>\<open>RemoveDependencyAndQueue\<close> then calls \<^verbatim>\<open>QueueJob\<close> exactly once, and a
  call whose resulting value is not zero makes no call to the scheduler. With
  concurrent callers that keep the contract, \<^verbatim>\<open>QueueJob\<close> is reached only by the
  thread whose subtraction gave zero, and it is called at most once in any
  execution.
\<close>

theorem RemoveDependency_zero:
  "mNumDependencies (snd (RemoveDependency n j)) = mNumDependencies j - word_of_int n \<and>
   fst (RemoveDependency n j) = (mNumDependencies j - word_of_int n = 0) \<and>
   fst (RemoveDependencyAndQueue n j) = snd (RemoveDependency n j) \<and>
   snd (RemoveDependencyAndQueue n j) =
     (if mNumDependencies j - word_of_int n = 0 then [QueueJob] else []) \<and>
   (enter c j = Some (j', Call_QueueJob) \<longrightarrow> mNumDependencies j' = 0) \<and>
   (resume p k = Some (k', p', es) \<longrightarrow>
      p' \<noteq> Call_QueueJob \<and> (QueueJob \<in> set es \<longrightarrow> p = Call_QueueJob)) \<and>
   (reachable s \<longrightarrow> count_list (trace s) QueueJob \<le> 1)"
proof (intro conjI impI)
  show "enter c j = Some (j', Call_QueueJob) \<Longrightarrow> mNumDependencies j' = 0"
    by (simp add: enter_queue)
  show "resume p k = Some (k', p', es) \<Longrightarrow> p' \<noteq> Call_QueueJob"
    by (simp add: resume_queue)
  show "resume p k = Some (k', p', es) \<Longrightarrow> QueueJob \<in> set es \<Longrightarrow> p = Call_QueueJob"
    by (simp add: resume_queue)
  show "reachable s \<Longrightarrow> count_list (trace s) QueueJob \<le> 1"
    using reachable_queue_inv [of s] by (simp add: queue_inv_def)
qed (simp_all add: RemoveDependency_def RemoveDependencyAndQueue_def Let_def split: bool.splits)

theorem RemoveDependency_zero_witness:
  "RemoveDependencyAndQueue 1 (Job_new 2) = (Job_new 1, []) \<and>
   RemoveDependencyAndQueue 1 (Job_new 1) = (Job_new 0, [QueueJob]) \<and>
   enter (Call_RemoveDependencyAndQueue 1) (Job_new 1) = Some (Job_new 0, Call_QueueJob) \<and>
   resume Call_QueueJob (Job_new 0) = Some (Job_new 0, Idle, [QueueJob]) \<and>
   reachable \<lparr>job = Job_new 0, pcs = (\<lambda>t. Idle), trace = [QueueJob]\<rparr> \<and>
   count_list [QueueJob] QueueJob \<le> 1"
  using queue_reachable
    RemoveDependency_zero [of 1 "Job_new 2" "Call_RemoveDependencyAndQueue 1" "Job_new 0"
      Call_QueueJob "Job_new 0" "Job_new 0" Idle "[QueueJob]"
      "\<lparr>job = Job_new 0, pcs = (\<lambda>t. Idle), trace = [QueueJob]\<rparr>"]
    RemoveDependency_zero [of 1 "Job_new 1" "Call_RemoveDependencyAndQueue 1" "Job_new 0"
      Call_QueueJob "Job_new 0" "Job_new 0" Idle "[QueueJob]"
      "\<lparr>job = Job_new 0, pcs = (\<lambda>t. Idle), trace = [QueueJob]\<rparr>"]
  by (simp add: prod_eq_iff Job_new_def RemoveDependency_def Let_def may_remove_def
        cDoneState_def word_less_def)

text \<open>
  The spec has \<^verbatim>\<open>FreeJob\<close> invoked only after the job reached \<open>DONE\<close>. A job
  created with one dependency, referenced by one handle (\<^verbatim>\<open>AddRef\<close>) and then
  released: \<^verbatim>\<open>Release\<close> calls \<^verbatim>\<open>FreeJob\<close> although the job never ran. The
  schedule in which thread 0 makes the two calls is an execution of the thread
  model.
\<close>

theorem Release_frees_early:
  "Release (AddRef (Job_new 1)) = (Job_new 1, [FreeJob]) \<and> \<not> IsDone (Job_new 1) \<and>
   map_option trace (run [(0, Call_AddRef), (0, Call_Release), (0, Call_Release)] (start 1)) =
     Some [FreeJob] \<and>
   map_option job (run [(0, Call_AddRef), (0, Call_Release), (0, Call_Release)] (start 1)) =
     Some (Job_new 1)"
  by (simp add: Release_def AddRef_def Job_new_def IsDone_def cDoneState_def start_def)

text \<open>
  C6, amended. \<^verbatim>\<open>FreeJob\<close> is invoked by exactly the \<^verbatim>\<open>Release\<close> call that brings
  the reference count to zero, whatever the dependency counter holds: \<^verbatim>\<open>Release\<close>
  neither reads nor writes the counter, and no other call reaches \<^verbatim>\<open>FreeJob\<close>. A
  job is therefore freed after it has finished only when some reference is held
  until then.
\<close>

theorem Release_frees_at_zero:
  "snd (Release j) = (if mReferenceCount j = 1 then [FreeJob] else []) \<and>
   mNumDependencies (fst (Release j)) = mNumDependencies j \<and>
   snd (Release (j\<lparr>mNumDependencies := n\<rparr>)) = snd (Release j) \<and>
   (enter c j = Some (j', Call_FreeJob) \<longrightarrow>
      c = Call_Release \<and> mReferenceCount j = 1 \<and> mReferenceCount j' = 0 \<and>
      mNumDependencies j' = mNumDependencies j) \<and>
   (resume p k = Some (k', p', es) \<longrightarrow>
      p' \<noteq> Call_FreeJob \<and> (FreeJob \<in> set es \<longrightarrow> p = Call_FreeJob))"
proof (intro conjI impI)
  show "snd (Release j) = (if mReferenceCount j = 1 then [FreeJob] else [])"
    by (simp add: Release_def Let_def)
  show "mNumDependencies (fst (Release j)) = mNumDependencies j"
    by (simp add: Release_def Let_def)
  show "snd (Release (j\<lparr>mNumDependencies := n\<rparr>)) = snd (Release j)"
    by (simp add: Release_def Let_def)
next
  assume "enter c j = Some (j', Call_FreeJob)"
  then have "c = Call_Release \<and> mReferenceCount j = 1 \<and> mReferenceCount j' = 0 \<and>
      mNumDependencies j' = mNumDependencies j"
    by (cases c)
       (auto simp: Let_def compare_exchange_strong_def RemoveDependency_def
          split: if_splits bool.splits)
  then show "c = Call_Release" "mReferenceCount j = 1" "mReferenceCount j' = 0"
    "mNumDependencies j' = mNumDependencies j"
    by simp_all
next
  assume "resume p k = Some (k', p', es)"
  then have "p' \<noteq> Call_FreeJob \<and> (FreeJob \<in> set es \<longrightarrow> p = Call_FreeJob)"
    by (cases p) (auto simp: compare_exchange_strong_def split: if_splits)
  then show "p' \<noteq> Call_FreeJob" "FreeJob \<in> set es \<Longrightarrow> p = Call_FreeJob"
    by simp_all
qed

theorem Release_frees_at_zero_witness:
  "snd (Release (AddRef (Job_new 1))) = [FreeJob] \<and>
   snd (Release (AddRef (AddRef (Job_new 1)))) = [] \<and>
   snd (Release (AddRef finished_job)) = [FreeJob] \<and>
   enter Call_Release (AddRef (Job_new 1)) = Some (Job_new 1, Call_FreeJob) \<and>
   resume Call_FreeJob (Job_new 1) = Some (Job_new 1, Idle, [FreeJob])"
  using Release_frees_at_zero [of "AddRef (Job_new 1)" 1 Call_Release "Job_new 1"
      Call_FreeJob "Job_new 1" "Job_new 1" Idle "[FreeJob]"]
    Release_frees_at_zero [of "AddRef (AddRef (Job_new 1))" 1 Call_Release "Job_new 1"
      Call_FreeJob "Job_new 1" "Job_new 1" Idle "[FreeJob]"]
    Release_frees_at_zero [of "AddRef finished_job" 1 Call_Release "Job_new 1"
      Call_FreeJob "Job_new 1" "Job_new 1" Idle "[FreeJob]"]
  by (simp add: AddRef_def Job_new_def finished_job_def)

text \<open>
  C7. For every \<open>K \<ge> 1\<close>: \<open>K\<close> calls of \<^verbatim>\<open>AddRef\<close> and \<open>K\<close> calls of
  \<^verbatim>\<open>Release\<close> on a fresh job, in any order in which the count never reaches zero
  early, call \<^verbatim>\<open>FreeJob\<close> exactly once. The call that does it is the last one,
  a \<^verbatim>\<open>Release\<close>, which brings the count to zero; none of the \<open>2K - 1\<close> calls
  before it calls \<^verbatim>\<open>FreeJob\<close>.
\<close>

theorem refcount_frees_once:
  assumes "mReferenceCount j = 0"
    and "count_list cs Do_AddRef = K" "count_list cs Do_Release = K" "1 \<le> K"
    and "never_zero_early cs j"
  shows "snd (ref_calls cs j) = replicate (2 * K - 1) [] @ [ [FreeJob] ] \<and>
         last cs = Do_Release \<and>
         count_list (concat (snd (ref_calls cs j))) FreeJob = 1"
proof -
  from assms(2-4) obtain c cs' where cs: "cs = c # cs'"
    by (cases cs) auto
  have c: "c = Do_AddRef"
    using assms(1,5) cs by (cases c) simp_all
  have ne: "cs' \<noteq> []"
    using assms(2-4) cs c by auto
  let ?j = "AddRef j"
  have one: "mReferenceCount ?j = 1" using assms(1) by (simp add: AddRef_def)
  have nze: "never_zero_early cs' ?j" using assms(5) cs c ne by simp
  have bal: "unat (mReferenceCount ?j) + count_list cs' Do_AddRef = count_list cs' Do_Release"
    using assms(2,3) cs c one by simp
  have nz: "mReferenceCount ?j \<noteq> 0" using one by simp
  note tl = ref_calls_balanced [OF ne nze nz bal]
  have len: "length cs' = 2 * K - 1"
    using length_ref_ops [of cs] assms(2,3) cs by simp
  have ev: "snd (ref_calls cs j) = replicate (2 * K - 1) [] @ [ [FreeJob] ]"
    using tl len cs c ne assms(4)
    by (cases "ref_calls cs' (AddRef j)")
       (simp add: replicate_app_Cons_same Suc_diff_Suc flip: replicate_Suc)
  moreover have "last cs = Do_Release" using tl cs ne by simp
  moreover have "count_list (concat (snd (ref_calls cs j))) FreeJob = 1"
    unfolding ev by simp
  ultimately show ?thesis by simp
qed

theorem refcount_frees_once_witness:
  "mReferenceCount (Job_new 0) = 0 \<and>
   count_list [Do_AddRef, Do_AddRef, Do_Release, Do_AddRef, Do_Release, Do_Release] Do_AddRef = 3 \<and>
   count_list [Do_AddRef, Do_AddRef, Do_Release, Do_AddRef, Do_Release, Do_Release] Do_Release = 3 \<and>
   never_zero_early [Do_AddRef, Do_AddRef, Do_Release, Do_AddRef, Do_Release, Do_Release] (Job_new 0) \<and>
   snd (ref_calls [Do_AddRef, Do_AddRef, Do_Release, Do_AddRef, Do_Release, Do_Release] (Job_new 0)) =
     [ [], [], [], [], [], [FreeJob] ]"
proof -
  let ?cs = "[Do_AddRef, Do_AddRef, Do_Release, Do_AddRef, Do_Release, Do_Release]"
  have h1: "mReferenceCount (Job_new 0) = 0" by (simp add: Job_new_def)
  have h2: "count_list ?cs Do_AddRef = 3" by simp
  have h3: "count_list ?cs Do_Release = 3" by simp
  have h4: "(1::nat) \<le> 3" by simp
  have h5: "never_zero_early ?cs (Job_new 0)"
    by (simp add: Job_new_def AddRef_def Release_def)
  from refcount_frees_once [OF h1 h2 h3 h4 h5] h1 h2 h3 h5 show ?thesis
    by (simp add: numeral_eq_Suc)
qed

text \<open>
  C8. \<^verbatim>\<open>Execute\<close> on a job whose dependency counter is not exactly \<open>0\<close> (a count
  above zero, \<open>cExecutingState\<close> or \<open>cDoneState\<close>) returns the counter value it
  observed and changes nothing: the counter, the barrier slot and the reference
  count are as before and the payload is not called.
\<close>

theorem Execute_not_runnable:
  "mNumDependencies j \<noteq> 0 \<Longrightarrow>
     Execute j = Inr (mNumDependencies j, j, []) \<and>
     enter Call_Execute j = Some (j, Idle)"
  by (simp add: Execute_def compare_exchange_strong_def)

theorem Execute_not_runnable_witness:
  "mNumDependencies (Job_new 2) \<noteq> 0 \<and> Execute (Job_new 2) = Inr (2, Job_new 2, []) \<and>
   Execute (Job_new cDoneState) = Inr (cDoneState, Job_new cDoneState, [])"
  using Execute_not_runnable [of "Job_new 2"] Execute_not_runnable [of "Job_new cDoneState"]
  by (simp add: Job_new_def sentinels_distinct)

text \<open>
  The tests are said to be correct only for counts strictly below \<open>0xd0d0d0d0\<close>.
  The counts \<open>0xd0d0d0d1\<close> and \<open>0xffffffff\<close> are not below it, and a job created
  with either is not done for \<^verbatim>\<open>IsDone\<close>, not executable for \<^verbatim>\<open>CanBeExecuted\<close>,
  and left alone by \<^verbatim>\<open>Execute\<close>, which reports the count itself.
\<close>

theorem sentinel_bound_counterexample:
  "\<not> (0xd0d0d0d1 :: uint32) < 0xd0d0d0d0 \<and>
   \<not> IsDone (Job_new 0xd0d0d0d1) \<and> \<not> CanBeExecuted (Job_new 0xd0d0d0d1) \<and>
   Execute (Job_new 0xd0d0d0d1) = Inr (0xd0d0d0d1, Job_new 0xd0d0d0d1, []) \<and>
   (0xd0d0d0d1 :: uint32) \<noteq> cDoneState \<and> (0xd0d0d0d1 :: uint32) \<noteq> cExecutingState \<and>
   \<not> (0xffffffff :: uint32) < 0xd0d0d0d0 \<and>
   \<not> IsDone (Job_new 0xffffffff) \<and> \<not> CanBeExecuted (Job_new 0xffffffff) \<and>
   Execute (Job_new 0xffffffff) = Inr (0xffffffff, Job_new 0xffffffff, [])"
  by (simp add: Execute_new IsDone_new CanBeExecuted_new cDoneState_def
        cExecutingState_def word_less_def)

text \<open>
  C9, amended. The execution state shares the 32-bit dependency counter with the
  count: \<open>cExecutingState\<close> is the ordinary value \<open>0xe0e0e0e0\<close> and \<open>cDoneState\<close>
  is \<open>0xd0d0d0d0\<close>. \<^verbatim>\<open>IsDone\<close> tests equality with \<open>cDoneState\<close>,
  \<^verbatim>\<open>CanBeExecuted\<close> equality with \<open>0\<close>, and \<^verbatim>\<open>Execute\<close> claims the job and runs the
  payload exactly when the counter equals \<open>0\<close>, and otherwise reports the counter
  as it is. The state tests are therefore correct exactly for the counts that
  differ from both reserved values, among them every count strictly below
  \<open>0xd0d0d0d0\<close>; a count equal to a reserved value is misclassified: a job
  created with \<open>0xd0d0d0d0\<close> dependencies is done for \<^verbatim>\<open>IsDone\<close> although it never
  ran, and one created with \<open>0xe0e0e0e0\<close> is reported as executing by
  \<^verbatim>\<open>Execute\<close>.
\<close>

theorem sentinel_classification:
  "unat cExecutingState = 0xe0e0e0e0 \<and> unat cDoneState = 0xd0d0d0d0 \<and>
   IsDone j = (mNumDependencies j = cDoneState) \<and>
   CanBeExecuted j = (mNumDependencies j = 0) \<and>
   (mNumDependencies j \<noteq> 0 \<longrightarrow> Execute j = Inr (mNumDependencies j, j, [])) \<and>
   (mNumDependencies j = 0 \<longrightarrow> mBarrier j \<noteq> cBarrierDoneState \<longrightarrow>
      Execute j =
        Inr (cDoneState, j\<lparr>mNumDependencies := cDoneState, mBarrier := cBarrierDoneState\<rparr>,
             JobFunction # (if mBarrier j \<noteq> 0 then [OnJobFinished (mBarrier j)] else []))) \<and>
   (enter Call_Execute j =
      Some (if mNumDependencies j = 0
            then (j\<lparr>mNumDependencies := cExecutingState\<rparr>, Run_Function)
            else (j, Idle))) \<and>
   (reads_as_count n \<longleftrightarrow> n \<noteq> cDoneState \<and> n \<noteq> cExecutingState) \<and>
   (n < cDoneState \<longrightarrow> reads_as_count n) \<and>
   IsDone (Job_new 0xd0d0d0d0) \<and> \<not> reads_as_count 0xd0d0d0d0 \<and>
   Execute (Job_new 0xe0e0e0e0) = Inr (cExecutingState, Job_new 0xe0e0e0e0, []) \<and>
   \<not> reads_as_count 0xe0e0e0e0"
proof (intro conjI impI)
  show "unat cExecutingState = 0xe0e0e0e0" by (simp add: cExecutingState_def)
  show "unat cDoneState = 0xd0d0d0d0" by (simp add: cDoneState_def)
  show "IsDone j = (mNumDependencies j = cDoneState)" by (simp add: IsDone_def)
  show "CanBeExecuted j = (mNumDependencies j = 0)" by (simp add: CanBeExecuted_def)
  show "Execute j = Inr (mNumDependencies j, j, [])" if "mNumDependencies j \<noteq> 0"
    using that by (rule Execute_skip)
  show "Execute j =
        Inr (cDoneState, j\<lparr>mNumDependencies := cDoneState, mBarrier := cBarrierDoneState\<rparr>,
             JobFunction # (if mBarrier j \<noteq> 0 then [OnJobFinished (mBarrier j)] else []))"
    if "mNumDependencies j = 0" "mBarrier j \<noteq> cBarrierDoneState"
    using that by (rule Execute_claim)
  show "enter Call_Execute j =
      Some (if mNumDependencies j = 0
            then (j\<lparr>mNumDependencies := cExecutingState\<rparr>, Run_Function)
            else (j, Idle))"
    by (simp add: compare_exchange_strong_def)
  show "reads_as_count n \<longleftrightarrow> n \<noteq> cDoneState \<and> n \<noteq> cExecutingState"
    by (rule reads_as_count_iff)
  show "reads_as_count n" if "n < cDoneState"
    using below_not_sentinel [OF that] by (simp add: reads_as_count_iff)
  show "IsDone (Job_new 0xd0d0d0d0)"
    by (simp add: IsDone_new cDoneState_def)
  show "\<not> reads_as_count 0xd0d0d0d0"
    by (simp add: reads_as_count_iff cDoneState_def)
  show "Execute (Job_new 0xe0e0e0e0) = Inr (cExecutingState, Job_new 0xe0e0e0e0, [])"
    by (simp add: Execute_new cExecutingState_def)
  show "\<not> reads_as_count 0xe0e0e0e0"
    by (simp add: reads_as_count_iff cExecutingState_def)
qed

theorem sentinel_classification_witness:
  "(5::uint32) < cDoneState \<and> reads_as_count 5 \<and> reads_as_count 0xd0d0d0d1 \<and>
   Execute (Job_new 5) = Inr (5, Job_new 5, []) \<and>
   Execute (Job_new 0) = Inr (cDoneState, finished_job, [JobFunction]) \<and>
   enter Call_Execute (Job_new 0) =
     Some ((Job_new 0)\<lparr>mNumDependencies := cExecutingState\<rparr>, Run_Function) \<and>
   IsDone (Job_new 0xd0d0d0d0)"
proof -
  have h: "(5::uint32) < cDoneState" by (simp add: cDoneState_def)
  show ?thesis
    using h sentinel_classification [where j = "Job_new 5" and n = 5]
      sentinel_classification [where j = "Job_new 0" and n = "0xd0d0d0d1"]
    by (simp add: Job_new_def finished_job_def cDoneState_def cExecutingState_def
          cBarrierDoneState_def)
qed

text \<open>
  C10. On an empty \<^verbatim>\<open>JobHandle\<close>, \<^verbatim>\<open>IsValid\<close> and \<^verbatim>\<open>IsDone\<close> return false without
  dereferencing anything, while \<^verbatim>\<open>AddDependency\<close> and \<^verbatim>\<open>RemoveDependency\<close>
  dereference the null pointer. On a handle that holds a job they do not; and
  \<^verbatim>\<open>IsDone\<close> dereferences no null pointer on any handle.
\<close>

theorem empty_handle:
  "\<not> IsValid (JobHandle None) \<and>
   JobHandle_IsDone (JobHandle None) = Inr False \<and>
   JobHandle_AddDependency (JobHandle None) n = Inl NullDereference \<and>
   JobHandle_RemoveDependency (JobHandle None) n = Inl NullDereference \<and>
   (IsValid h \<longrightarrow>
      JobHandle_AddDependency h n \<noteq> Inl NullDereference \<and>
      JobHandle_RemoveDependency h n \<noteq> Inl NullDereference) \<and>
   JobHandle_IsDone h \<noteq> Inl NullDereference"
  by (cases h; cases "GetPtr h")
     (auto simp: IsValid_def JobHandle_IsDone_def JobHandle_AddDependency_def
        JobHandle_RemoveDependency_def split: prod.splits)

theorem empty_handle_witness:
  "IsValid (JobHandle (Some (Job_new 1))) \<and>
   JobHandle_AddDependency (JobHandle (Some (Job_new 1))) 1 = Inr (JobHandle (Some (Job_new 2))) \<and>
   JobHandle_RemoveDependency (JobHandle (Some (Job_new 1))) 1 =
     Inr (JobHandle (Some (Job_new 0)), [QueueJob]) \<and>
   JobHandle_IsDone (JobHandle (Some (Job_new 1))) = Inr False \<and>
   JobHandle_AddDependency (JobHandle None) 1 = Inl NullDereference"
  using empty_handle [of 1 "JobHandle (Some (Job_new 1))"]
  by (simp add: IsValid_def JobHandle_IsDone_def JobHandle_AddDependency_def
        JobHandle_RemoveDependency_def RemoveDependencyAndQueue_def RemoveDependency_def
        AddDependency_def Job_new_def IsDone_def cDoneState_def)

end
